theory Spec2Isabelle
  imports Main "HOL-Library.Word"
begin

unbundle bit_operations_syntax

section \<open>Collaborative call-once: the flag word and the tagged runner pointer\<close>

text \<open>
  The development embeds \<^verbatim>\<open>include/oneapi/tbb/collaborative_call_once.h\<close>.
  The flag \<^verbatim>\<open>my_state\<close> is a \<^verbatim>\<open>std::atomic<std::uintptr_t>\<close>, modelled as a
  64-bit word.  All accesses to it are sequentially consistent read-modify-write
  operations or loads of one location, so an interleaving of atomic steps is the
  semantics used throughout.
\<close>

type_synonym uintptr = "64 word"

definition bit_count :: nat where
  "bit_count = 7"

text \<open>
  \<^verbatim>\<open>max_nfs_size\<close> is declared outside this header; the
  \<^verbatim>\<open>static_assert(1 << bit_count == max_nfs_size)\<close> of line 40 fixes its value.
\<close>

definition max_nfs_size :: uintptr where
  "max_nfs_size = push_bit bit_count 1"

definition maskoff_pointer :: "uintptr \<Rightarrow> uintptr" where
  "maskoff_pointer ptr = ptr AND push_bit bit_count (- 1)"

text \<open>\<^verbatim>\<open>enum state {uninitialized, done}\<close>: the two sentinel values of the flag word.\<close>

definition state_uninitialized :: uintptr where
  "state_uninitialized = 0"

definition state_done :: uintptr where
  "state_done = 1"

subsection \<open>Atomic primitives\<close>

text \<open>
  \<^verbatim>\<open>compare_exchange_strong(expected, desired)\<close> on a location holding \<open>cur\<close>:
  the result is (success, new content of the location, new content of \<open>expected\<close>).
\<close>

definition compare_exchange_strong :: "uintptr \<Rightarrow> uintptr \<Rightarrow> uintptr \<Rightarrow> bool \<times> uintptr \<times> uintptr" where
  "compare_exchange_strong cur expd desired =
     (if cur = expd then (True, desired, expd) else (False, cur, cur))"

text \<open>
  Modelled from the spec: the busy-wait helper \<^verbatim>\<open>spin_wait_while_eq\<close>
  (\<^verbatim>\<open>WaitWhileEqual(atomic, value) -> newValue\<close>) is not part of this header.  One
  probe of the location: \<open>None\<close> while it still holds \<open>v\<close> (the caller keeps
  spinning), otherwise the value read.
\<close>

definition spin_wait_while_eq :: "'a \<Rightarrow> 'a \<Rightarrow> 'a option" where
  "spin_wait_while_eq cur v = (if cur = v then None else Some cur)"

text \<open>
  Modelled from the spec: \<^verbatim>\<open>spin_wait_while(atomic, predicate)\<close>
  (\<^verbatim>\<open>WaitWhile\<close>), one probe.
\<close>

definition spin_wait_while :: "'a \<Rightarrow> ('a \<Rightarrow> bool) \<Rightarrow> 'a option" where
  "spin_wait_while cur p = (if p cur then None else Some cur)"

section \<open>The runner\<close>

text \<open>A failure raised by the user functor.\<close>

datatype exn = Exn nat

text \<open>
  \<^verbatim>\<open>storage_t\<close>: the completion counter \<^verbatim>\<open>my_wait_context\<close> and the failure
  context \<^verbatim>\<open>my_context\<close> (the failure recorded in it, if any).  The arena handle
  carries no state of its own here.
\<close>

record storage_t =
  my_wait_context :: nat
  my_context :: "exn option"

text \<open>The anonymous union around \<^verbatim>\<open>m_storage\<close>: built only by \<^verbatim>\<open>make_runner\<close>.\<close>

datatype storage = Unbuilt | Built storage_t | Destroyed

text \<open>
  \<^verbatim>\<open>class once_runner\<close>.  \<open>ref_count\<close> is a \<^verbatim>\<open>std::int64_t\<close> that only ever moves
  by one per assisting thread; it is kept as an unbounded integer.  \<open>live\<close> is the
  lifetime of the object (between its constructor and the end of its destructor).
\<close>

record once_runner =
  ref_count :: int
  m_initialized :: bool
  m_storage :: storage
  live :: bool

text \<open>\<^verbatim>\<open>once_runner() {}\<close> with the default member initialisers of lines 69-70.\<close>

definition once_runner_ctor :: once_runner where
  "once_runner_ctor = \<lparr>ref_count = 0, m_initialized = False, m_storage = Unbuilt, live = True\<rparr>"

text \<open>
  \<^verbatim>\<open>~once_runner()\<close>, lines 89-94: \<open>None\<close> while the spin on \<open>ref_count\<close> goes on,
  otherwise the object after the destructor ran.
\<close>

definition once_runner_dtor :: "once_runner \<Rightarrow> once_runner option" where
  "once_runner_dtor r =
     (case spin_wait_while (ref_count r) (\<lambda>v. v > 0) of
        None \<Rightarrow> None
      | Some _ \<Rightarrow>
          Some ((if m_initialized r then r\<lparr>m_storage := Destroyed\<rparr> else r)\<lparr>live := False\<rparr>))"

definition make_runner :: "once_runner \<Rightarrow> once_runner" where
  "make_runner r =
     r\<lparr>m_storage := Built \<lparr>my_wait_context = 0, my_context = None\<rparr>, m_initialized := True\<rparr>"

text \<open>\<^verbatim>\<open>wait_for_init\<close>: one probe; \<open>True\<close> when the wait is over.\<close>

definition wait_for_init :: "once_runner \<Rightarrow> bool" where
  "wait_for_init r = (spin_wait_while_eq (m_initialized r) False \<noteq> None)"

definition increase_ref :: "once_runner \<Rightarrow> once_runner" where
  "increase_ref r = r\<lparr>ref_count := ref_count r + 1\<rparr>"

definition decrease_ref :: "once_runner \<Rightarrow> once_runner" where
  "decrease_ref r = r\<lparr>ref_count := ref_count r - 1\<rparr>"

subsection \<open>The scheduler interface used by the runner\<close>

text \<open>
  Modelled from the spec: the cooperative wait (\<^verbatim>\<open>detail::d1::wait\<close> and the wait
  inside \<^verbatim>\<open>execute_and_wait\<close>) is the scheduler's \<^verbatim>\<open>AwaitZero(counter, failureContext)\<close>:
  it returns once the counter is zero and then raises the failure recorded in the
  context passed to it.  \<open>None\<close>: still waiting; \<open>Some None\<close>: returned; \<open>Some (Some x)\<close>:
  raised \<open>x\<close>.
\<close>

definition await_zero :: "nat \<Rightarrow> exn option \<Rightarrow> exn option option" where
  "await_zero counter failure_context = (if counter = 0 then Some failure_context else None)"

text \<open>
  The user functor: its effect on the shared data it works on (a number here, for
  instance a counter) and the failure it raises, if any.
\<close>

record func =
  effect :: "nat \<Rightarrow> nat"
  raises :: "exn option"

text \<open>\<^verbatim>\<open>run_once\<close>, line 114: \<^verbatim>\<open>my_wait_context.reserve()\<close>.\<close>

definition run_once_reserve :: "storage_t \<Rightarrow> storage_t" where
  "run_once_reserve st = st\<lparr>my_wait_context := my_wait_context st + 1\<rparr>"

text \<open>
  Modelled from the spec: the task wrapping the functor, bound to the completion
  counter and the failure context.  When it finishes, its failure (if any) is recorded
  in the context and the counter is released.
\<close>

definition run_once_task :: "func \<Rightarrow> storage_t \<Rightarrow> storage_t" where
  "run_once_task f st =
     st\<lparr>my_wait_context := my_wait_context st - 1,
        my_context := (case my_context st of None \<Rightarrow> raises f | Some x \<Rightarrow> Some x)\<rparr>"

text \<open>\<^verbatim>\<open>run_once\<close>, line 116: the wait on the runner's own counter and context.\<close>

definition run_once_wait :: "storage_t \<Rightarrow> exn option option" where
  "run_once_wait st = await_zero (my_wait_context st) (my_context st)"

text \<open>
  \<^verbatim>\<open>assist\<close>, lines 121-130: the wait on the runner's counter with a fresh
  \<^verbatim>\<open>stub_context\<close>, which holds no failure.
\<close>

definition assist :: "storage_t \<Rightarrow> exn option option" where
  "assist st = (let stub_context = None in await_zero (my_wait_context st) stub_context)"

section \<open>The flag protocol as a transition system\<close>

text \<open>How a call leaves \<^verbatim>\<open>do_collaborative_call_once\<close>, which decides what follows the
  destructor of \<^verbatim>\<open>local_runner\<close>.\<close>

datatype exit_path = Exit_loop | Exit_winner | Exit_exception exn

text \<open>
  The control points of one call of \<^verbatim>\<open>do_collaborative_call_once\<close>.  Each step from a
  control point performs at most one access to shared memory:
  \<^item> \<open>Start\<close>: line 143, the load of \<^verbatim>\<open>my_state\<close>, and line 144;
  \<^item> \<open>Loop\<close>: lines 145-146, the loop test and the winner's compare-and-swap;
  \<^item> \<open>Make_runner\<close>: lines 148 and 150;
  \<^item> \<open>Run_reserve\<close>, \<open>Run_task\<close>, \<open>Run_wait\<close>: \<^verbatim>\<open>run_once\<close> inside \<^verbatim>\<open>try_call\<close>, lines 152-153;
  \<^item> \<open>Reset_cas x\<close>: the \<^verbatim>\<open>on_exception\<close> loop, lines 155-157, with the failure in flight;
  \<^item> \<open>Done_cas\<close>: lines 160-162;
  \<^item> \<open>Spin_max\<close>: lines 168-169;
  \<^item> \<open>Reg_cas\<close>: the loop condition of line 171 and the decoding of line 173;
  \<^item> \<open>Wait_init\<close>, \<open>Inc_ref\<close>, \<open>Fetch_sub\<close>, \<open>Assist\<close>, \<open>Dec_ref\<close>: lines 174, 176, 177, 181, 183;
  \<^item> \<open>Dtor p\<close>: the destructor of \<^verbatim>\<open>local_runner\<close> on the way out;
  \<^item> \<open>Returned\<close>, \<open>Raised x\<close>: the call is over; \<open>Terminated\<close>: a failure escaped the
    \<^verbatim>\<open>noexcept\<close> lambda of line 181.
\<close>

datatype pc =
    Start | Loop | Make_runner | Run_reserve | Run_task | Run_wait
  | Reset_cas exn | Done_cas
  | Spin_max | Reg_cas | Wait_init | Inc_ref | Fetch_sub | Assist | Dec_ref
  | Dtor exit_path | Returned | Raised exn | Terminated

text \<open>
  The locals of one call: \<open>expected\<close>, \<open>local_expected\<close>, the decoded pointer \<open>runner\<close>,
  and \<open>ub\<close>, set when the call dereferenced a runner outside its lifetime (undefined
  behaviour; the call makes no further step).
\<close>

record thread =
  pc :: pc
  expected :: uintptr
  local_expected :: uintptr
  runner :: uintptr
  ub :: bool

text \<open>
  The shared memory: the flag word, the runner objects by address, the locals of
  every call, and the data the functors work on.
\<close>

record config =
  my_state :: uintptr
  heap :: "uintptr \<Rightarrow> once_runner"
  threads :: "nat \<Rightarrow> thread"
  shared :: nat

text \<open>
  What is given from outside: the number of calls on the flag (each by a thread of its
  own), the address of each call's \<^verbatim>\<open>local_runner\<close>, and each call's functor.
\<close>

record env =
  ncalls :: nat
  local_runner :: "nat \<Rightarrow> uintptr"
  fn :: "nat \<Rightarrow> func"

definition upd_thread :: "nat \<Rightarrow> (thread \<Rightarrow> thread) \<Rightarrow> config \<Rightarrow> config" where
  "upd_thread t f s = s\<lparr>threads := (threads s)(t := f (threads s t))\<rparr>"

definition upd_runner :: "uintptr \<Rightarrow> (once_runner \<Rightarrow> once_runner) \<Rightarrow> config \<Rightarrow> config" where
  "upd_runner a f s = s\<lparr>heap := (heap s)(a := f (heap s a))\<rparr>"

definition goto :: "nat \<Rightarrow> pc \<Rightarrow> config \<Rightarrow> config" where
  "goto t p = upd_thread t (\<lambda>th. th\<lparr>pc := p\<rparr>)"

definition undefined_behaviour :: "nat \<Rightarrow> config \<Rightarrow> config" where
  "undefined_behaviour t = upd_thread t (\<lambda>th. th\<lparr>ub := True\<rparr>)"

text \<open>Line 173 and what follows it: decode \<open>expected\<close>; a null runner skips the body.\<close>

definition decode :: "nat \<Rightarrow> config \<Rightarrow> config" where
  "decode t s =
     (let r = maskoff_pointer (expected (threads s t)) in
      if r \<noteq> 0 then upd_thread t (\<lambda>th. th\<lparr>runner := r, pc := Wait_init\<rparr>) s
      else goto t Loop s)"

text \<open>
  Modelled from the spec: \<^verbatim>\<open>try_call(body).on_exception(handler)\<close> is not part of
  this header.  As the winner protocol of the spec has it, a failure of the body is
  captured, the handler runs (here the loop of lines 155-157), and the failure is then
  raised again to the caller; the code after the \<^verbatim>\<open>try_call\<close> statement (lines 160-164)
  runs only when the body did not fail.  On both ways out the destructor of
  \<^verbatim>\<open>local_runner\<close> runs before the caller gets control back.
\<close>

text \<open>
  What call \<open>t\<close> does at each control point, as one atomic step.  A call that is
  spinning, or over, leaves the configuration as it is.
\<close>

fun exec :: "env \<Rightarrow> nat \<Rightarrow> config \<Rightarrow> pc \<Rightarrow> config" where
  "exec e t s Start =
     upd_runner (local_runner e t) (\<lambda>_. once_runner_ctor)
       (upd_thread t (\<lambda>th. th\<lparr>expected := my_state s, pc := Loop\<rparr>) s)"
| "exec e t s Loop =
     (if expected (threads s t) \<noteq> state_done then
        if expected (threads s t) = state_uninitialized then
          (case compare_exchange_strong (my_state s) (expected (threads s t)) (local_runner e t) of
             (True, v, x) \<Rightarrow>
               upd_thread t (\<lambda>th. th\<lparr>expected := x, pc := Make_runner\<rparr>) (s\<lparr>my_state := v\<rparr>)
           | (False, v, x) \<Rightarrow>
               upd_thread t (\<lambda>th. th\<lparr>expected := x, pc := Spin_max\<rparr>) (s\<lparr>my_state := v\<rparr>))
        else goto t Spin_max s
      else goto t (Dtor Exit_loop) s)"
| "exec e t s Make_runner =
     upd_thread t (\<lambda>th. th\<lparr>local_expected := local_runner e t, pc := Run_reserve\<rparr>)
       (upd_runner (local_runner e t) make_runner s)"
| "exec e t s Run_reserve =
     (case m_storage (heap s (local_runner e t)) of
        Built st \<Rightarrow>
          goto t Run_task
            (upd_runner (local_runner e t) (\<lambda>r. r\<lparr>m_storage := Built (run_once_reserve st)\<rparr>) s)
      | _ \<Rightarrow> undefined_behaviour t s)"
| "exec e t s Run_task =
     (case m_storage (heap s (local_runner e t)) of
        Built st \<Rightarrow>
          goto t Run_wait
            (upd_runner (local_runner e t) (\<lambda>r. r\<lparr>m_storage := Built (run_once_task (fn e t) st)\<rparr>)
               (s\<lparr>shared := effect (fn e t) (shared s)\<rparr>))
      | _ \<Rightarrow> undefined_behaviour t s)"
| "exec e t s Run_wait =
     (case m_storage (heap s (local_runner e t)) of
        Built st \<Rightarrow>
          (case run_once_wait st of
             None \<Rightarrow> s
           | Some None \<Rightarrow> goto t Done_cas s
           | Some (Some x) \<Rightarrow> goto t (Reset_cas x) s)
      | _ \<Rightarrow> undefined_behaviour t s)"
| "exec e t s (Reset_cas x) =
     (case compare_exchange_strong (my_state s) (local_expected (threads s t)) state_uninitialized of
        (True, v, _) \<Rightarrow> goto t (Dtor (Exit_exception x)) (s\<lparr>my_state := v\<rparr>)
      | (False, v, _) \<Rightarrow>
          upd_thread t (\<lambda>th. th\<lparr>local_expected := local_runner e t\<rparr>) (s\<lparr>my_state := v\<rparr>))"
| "exec e t s Done_cas =
     (case compare_exchange_strong (my_state s) (local_expected (threads s t)) state_done of
        (True, v, _) \<Rightarrow> goto t (Dtor Exit_winner) (s\<lparr>my_state := v\<rparr>)
      | (False, v, _) \<Rightarrow>
          upd_thread t (\<lambda>th. th\<lparr>local_expected := local_runner e t\<rparr>) (s\<lparr>my_state := v\<rparr>))"
| "exec e t s Spin_max =
     (let max_value = expected (threads s t) OR (max_nfs_size - 1) in
      case spin_wait_while_eq (my_state s) max_value of
        None \<Rightarrow> s
      | Some v \<Rightarrow> upd_thread t (\<lambda>th. th\<lparr>expected := v, pc := Reg_cas\<rparr>) s)"
| "exec e t s Reg_cas =
     (if expected (threads s t) > state_done then
        (case compare_exchange_strong (my_state s) (expected (threads s t)) (expected (threads s t) + 1) of
           (True, v, x) \<Rightarrow> decode t (upd_thread t (\<lambda>th. th\<lparr>expected := x\<rparr>) (s\<lparr>my_state := v\<rparr>))
         | (False, v, x) \<Rightarrow>
             upd_thread t (\<lambda>th. th\<lparr>expected := x, pc := Spin_max\<rparr>) (s\<lparr>my_state := v\<rparr>))
      else decode t s)"
| "exec e t s Wait_init =
     (if live (heap s (runner (threads s t))) then
        if wait_for_init (heap s (runner (threads s t))) then goto t Inc_ref s else s
      else undefined_behaviour t s)"
| "exec e t s Inc_ref =
     (if live (heap s (runner (threads s t))) then
        goto t Fetch_sub (upd_runner (runner (threads s t)) increase_ref s)
      else undefined_behaviour t s)"
| "exec e t s Fetch_sub = goto t Assist (s\<lparr>my_state := my_state s - 1\<rparr>)"
| "exec e t s Assist =
     (if live (heap s (runner (threads s t))) then
        (case m_storage (heap s (runner (threads s t))) of
           Built st \<Rightarrow>
             (case assist st of
                None \<Rightarrow> s
              | Some None \<Rightarrow> goto t Dec_ref s
              | Some (Some _) \<Rightarrow> goto t Terminated s)
         | _ \<Rightarrow> undefined_behaviour t s)
      else undefined_behaviour t s)"
| "exec e t s Dec_ref =
     (if live (heap s (runner (threads s t))) then
        goto t Loop (upd_runner (runner (threads s t)) decrease_ref s)
      else undefined_behaviour t s)"
| "exec e t s (Dtor p) =
     (case once_runner_dtor (heap s (local_runner e t)) of
        None \<Rightarrow> s
      | Some r \<Rightarrow>
          goto t (case p of Exit_exception x \<Rightarrow> Raised x | _ \<Rightarrow> Returned)
            (upd_runner (local_runner e t) (\<lambda>_. r) s))"
| "exec e t s Returned = s"
| "exec e t s (Raised x) = s"
| "exec e t s Terminated = s"

definition step :: "env \<Rightarrow> nat \<Rightarrow> config \<Rightarrow> config" where
  "step e t s = (if ub (threads s t) then s else exec e t s (pc (threads s t)))"

text \<open>A schedule is the list of the calls that step, in order.\<close>

fun run :: "env \<Rightarrow> nat list \<Rightarrow> config \<Rightarrow> config" where
  "run e [] s = s"
| "run e (t # ts) s = run e ts (step e t s)"

text \<open>The fresh flag: no call has started, no runner exists.\<close>

definition init_thread :: thread where
  "init_thread = \<lparr>pc = Start, expected = 0, local_expected = 0, runner = 0, ub = False\<rparr>"

definition init_config :: config where
  "init_config =
     \<lparr>my_state = state_uninitialized,
      heap = (\<lambda>_. \<lparr>ref_count = 0, m_initialized = False, m_storage = Unbuilt, live = False\<rparr>),
      threads = (\<lambda>_. init_thread),
      shared = 0\<rparr>"

inductive reachable :: "env \<Rightarrow> config \<Rightarrow> bool" for e :: env where
  reachable_init: "reachable e init_config"
| reachable_step: "reachable e s \<Longrightarrow> t < ncalls e \<Longrightarrow> reachable e (step e t s)"

section \<open>Environments\<close>

text \<open>
  What the protocol may rely on: every runner is aligned to \<^verbatim>\<open>max_nfs_size\<close> (the
  \<^verbatim>\<open>alignas\<close> of line 46) and is not at the null address, the number of calls is small
  against the address space (an address plus the number of calls does not wrap around),
  and the calls have runners of their own (each call is made once, in a stack frame
  that no other call of the configuration uses).
\<close>

definition wf_env :: "env \<Rightarrow> bool" where
  "wf_env e \<longleftrightarrow>
     (\<forall>t<ncalls e. local_runner e t AND (max_nfs_size - 1) = 0 \<and> local_runner e t \<noteq> 0 \<and>
        unat (local_runner e t) + ncalls e < 2 ^ 64) \<and>
     inj_on (local_runner e) {..<ncalls e}"

section \<open>Bookkeeping for the protocol invariants\<close>

text \<open>
  A call holds the winner role from its successful compare-and-swap of line 146 until
  its compare-and-swap of line 155 or 160 succeeds.  A call is registered from its
  successful compare-and-swap of line 171 until its \<^verbatim>\<open>fetch_sub\<close> of line 177, and
  holds a reference from its \<^verbatim>\<open>increase_ref\<close> of line 176 until its \<^verbatim>\<open>decrease_ref\<close> of
  line 183.
\<close>

fun winner_pc :: "pc \<Rightarrow> bool" where
  "winner_pc Make_runner = True"
| "winner_pc Run_reserve = True"
| "winner_pc Run_task = True"
| "winner_pc Run_wait = True"
| "winner_pc (Reset_cas x) = True"
| "winner_pc Done_cas = True"
| "winner_pc _ = False"

fun registered_pc :: "pc \<Rightarrow> bool" where
  "registered_pc Wait_init = True"
| "registered_pc Inc_ref = True"
| "registered_pc Fetch_sub = True"
| "registered_pc _ = False"

fun holds_ref_pc :: "pc \<Rightarrow> bool" where
  "holds_ref_pc Fetch_sub = True"
| "holds_ref_pc Assist = True"
| "holds_ref_pc Dec_ref = True"
| "holds_ref_pc _ = False"

text \<open>The winner past line 150, where \<open>local_expected\<close> holds the address of its runner.\<close>

fun armed_pc :: "pc \<Rightarrow> bool" where
  "armed_pc Run_reserve = True"
| "armed_pc Run_task = True"
| "armed_pc Run_wait = True"
| "armed_pc (Reset_cas x) = True"
| "armed_pc Done_cas = True"
| "armed_pc _ = False"

text \<open>A call that carries a failure: it is resetting the flag, unwinding, or has raised.\<close>

fun failure_pc :: "pc \<Rightarrow> bool" where
  "failure_pc (Reset_cas x) = True"
| "failure_pc (Dtor (Exit_exception x)) = True"
| "failure_pc (Raised x) = True"
| "failure_pc Terminated = True"
| "failure_pc _ = False"

text \<open>A call on its way out without a failure, or out.\<close>

fun returning_pc :: "pc \<Rightarrow> bool" where
  "returning_pc (Dtor Exit_loop) = True"
| "returning_pc (Dtor Exit_winner) = True"
| "returning_pc Returned = True"
| "returning_pc _ = False"

text \<open>A winner whose task has run and that has not published the result yet.\<close>

fun after_task_pc :: "pc \<Rightarrow> bool" where
  "after_task_pc Run_wait = True"
| "after_task_pc Done_cas = True"
| "after_task_pc _ = False"

definition winners :: "env \<Rightarrow> config \<Rightarrow> nat set" where
  "winners e s = {t. t < ncalls e \<and> winner_pc (pc (threads s t))}"

definition registered :: "env \<Rightarrow> config \<Rightarrow> nat set" where
  "registered e s = {t. t < ncalls e \<and> registered_pc (pc (threads s t))}"

definition holders :: "env \<Rightarrow> config \<Rightarrow> uintptr \<Rightarrow> nat set" where
  "holders e s a = {t. t < ncalls e \<and> holds_ref_pc (pc (threads s t)) \<and> runner (threads s t) = a}"

definition after_task :: "env \<Rightarrow> config \<Rightarrow> nat set" where
  "after_task e s = {t. t < ncalls e \<and> after_task_pc (pc (threads s t))}"

text \<open>The kinds of change a step makes to the flag word.\<close>

datatype flag_move = Stutter | Win | Register | Deregister | Publish_done | Reset

definition flag_move_of :: "env \<Rightarrow> nat \<Rightarrow> config \<Rightarrow> flag_move" where
  "flag_move_of e t s =
     (let th = threads s t in
      if ub th then Stutter
      else case pc th of
        Loop \<Rightarrow> if expected th = state_uninitialized \<and> my_state s = state_uninitialized then Win else Stutter
      | Reg_cas \<Rightarrow> if expected th > state_done \<and> my_state s = expected th then Register else Stutter
      | Fetch_sub \<Rightarrow> Deregister
      | Done_cas \<Rightarrow> if my_state s = local_expected th then Publish_done else Stutter
      | Reset_cas x \<Rightarrow> if my_state s = local_expected th then Reset else Stutter
      | _ \<Rightarrow> Stutter)"

text \<open>The kinds of change a step makes to the lifetime and the reference count of a runner.\<close>

datatype ref_move = Other | Construct | Destroy | Acquire | Release

definition ref_move_of :: "env \<Rightarrow> nat \<Rightarrow> config \<Rightarrow> ref_move" where
  "ref_move_of e t s =
     (let th = threads s t in
      if ub th then Other
      else case pc th of
        Start \<Rightarrow> Construct
      | Dtor p \<Rightarrow> if ref_count (heap s (local_runner e t)) > 0 then Other else Destroy
      | Inc_ref \<Rightarrow> if live (heap s (runner th)) then Acquire else Other
      | Dec_ref \<Rightarrow> if live (heap s (runner th)) then Release else Other
      | _ \<Rightarrow> Other)"

subsection \<open>The invariants\<close>

text \<open>
  The flag word: at most one call holds the winner role, and while one does the flag
  word is the address of its runner plus the number of registered calls; otherwise the
  flag word is a sentinel and no call is registered.
\<close>

definition inv_flag :: "env \<Rightarrow> config \<Rightarrow> bool" where
  "inv_flag e s \<longleftrightarrow>
     (\<forall>t<ncalls e. armed_pc (pc (threads s t)) \<longrightarrow> local_expected (threads s t) = local_runner e t) \<and>
     (\<forall>w\<in>winners e s. winners e s = {w} \<and>
        my_state s = local_runner e w + of_nat (card (registered e s))) \<and>
     (winners e s = {} \<longrightarrow>
        (my_state s = state_uninitialized \<or> my_state s = state_done) \<and> registered e s = {})"

text \<open>
  The runner of a call, by the control point of the call: not alive before the call
  starts and after it is over; unbuilt for a call that has not won; built, with the
  counter and the failure context as \<^verbatim>\<open>run_once\<close> leaves them, for a winner.
\<close>

definition unbuilt :: "once_runner \<Rightarrow> bool" where
  "unbuilt r \<longleftrightarrow> live r \<and> \<not> m_initialized r \<and> m_storage r = Unbuilt"

definition built_with :: "once_runner \<Rightarrow> nat \<Rightarrow> exn option \<Rightarrow> bool" where
  "built_with r n c \<longleftrightarrow>
     live r \<and> m_initialized r \<and> m_storage r = Built \<lparr>my_wait_context = n, my_context = c\<rparr>"

fun own_ok :: "func \<Rightarrow> pc \<Rightarrow> once_runner \<Rightarrow> bool" where
  "own_ok f Start r = (\<not> live r)"
| "own_ok f Run_reserve r = built_with r 0 None"
| "own_ok f Run_task r = built_with r 1 None"
| "own_ok f Run_wait r = built_with r 0 (raises f)"
| "own_ok f (Reset_cas x) r = (built_with r 0 (raises f) \<and> raises f = Some x)"
| "own_ok f Done_cas r = (built_with r 0 (raises f) \<and> raises f = None)"
| "own_ok f (Dtor Exit_loop) r = unbuilt r"
| "own_ok f (Dtor Exit_winner) r = (built_with r 0 (raises f) \<and> raises f = None)"
| "own_ok f (Dtor (Exit_exception x)) r = (built_with r 0 (raises f) \<and> raises f = Some x)"
| "own_ok f Returned r =
     (\<not> live r \<and> (if m_initialized r then m_storage r = Destroyed \<and> raises f = None
                  else m_storage r = Unbuilt))"
| "own_ok f (Raised x) r =
     (\<not> live r \<and> m_initialized r \<and> m_storage r = Destroyed \<and> raises f = Some x)"
| "own_ok f Terminated r = False"
| "own_ok f _ r = unbuilt r"

definition inv_own :: "env \<Rightarrow> config \<Rightarrow> bool" where
  "inv_own e s \<longleftrightarrow>
     (\<forall>t<ncalls e. own_ok (fn e t) (pc (threads s t)) (heap s (local_runner e t)))"

text \<open>Two runner objects that differ at most in their reference count.\<close>

definition same_body :: "once_runner \<Rightarrow> once_runner \<Rightarrow> bool" where
  "same_body r r' \<longleftrightarrow>
     live r' = live r \<and> m_initialized r' = m_initialized r \<and> m_storage r' = m_storage r"

text \<open>
  The reference count of every runner is the number of calls that hold a reference to
  it, and a runner to which a reference is held is alive.
\<close>

definition inv_ref :: "env \<Rightarrow> config \<Rightarrow> bool" where
  "inv_ref e s \<longleftrightarrow>
     (\<forall>a. ref_count (heap s a) = int (card (holders e s a)) \<and>
          (holders e s a \<noteq> {} \<longrightarrow> live (heap s a)))"

text \<open>A call that has read \<open>done\<close>, or that returns without a failure, does so on a flag
  that is \<open>done\<close>.\<close>

definition inv_done :: "env \<Rightarrow> config \<Rightarrow> bool" where
  "inv_done e s \<longleftrightarrow>
     (\<forall>t<ncalls e. expected (threads s t) = state_done \<or> returning_pc (pc (threads s t)) \<longrightarrow>
        my_state s = state_done)"

text \<open>With counting functors: the shared counter is 1 once a task has run, 0 before.\<close>

definition inv_count :: "env \<Rightarrow> config \<Rightarrow> bool" where
  "inv_count e s \<longleftrightarrow>
     shared s = (if my_state s = state_done \<or> after_task e s \<noteq> {} then 1 else 0)"

text \<open>No functor raises.\<close>

definition no_failure :: "env \<Rightarrow> bool" where
  "no_failure e \<longleftrightarrow> (\<forall>t<ncalls e. raises (fn e t) = None)"

text \<open>
  When no functor raises, at most one runner is ever published, so every value of
  \<open>expected\<close> other than 0 is a tagged address of the winner's runner, and the sentinel
  of line 168 is the saturated word of that runner.
\<close>

definition inv_cap :: "env \<Rightarrow> config \<Rightarrow> bool" where
  "inv_cap e s \<longleftrightarrow>
     (my_state s = state_uninitialized \<longrightarrow> (\<forall>t<ncalls e. expected (threads s t) = 0)) \<and>
     (\<forall>t<ncalls e. pc (threads s t) = Spin_max \<longrightarrow> expected (threads s t) \<noteq> 0) \<and>
     (\<forall>w\<in>winners e s.
        card (registered e s) \<le> 127 \<and>
        (\<forall>t<ncalls e. expected (threads s t) = 0 \<or>
           (\<exists>k\<le>127. expected (threads s t) = local_runner e w + of_nat k)) \<and>
        (\<forall>t<ncalls e. pc (threads s t) = Reg_cas \<longrightarrow>
           expected (threads s t) \<noteq> local_runner e w + 127))"

text \<open>A registered call holds the pointer it decoded from \<open>expected\<close>, which is not null.\<close>

definition inv_decoded :: "env \<Rightarrow> config \<Rightarrow> bool" where
  "inv_decoded e s \<longleftrightarrow>
     (\<forall>t<ncalls e. registered_pc (pc (threads s t)) \<longrightarrow>
        runner (threads s t) = maskoff_pointer (expected (threads s t)) \<and>
        runner (threads s t) \<noteq> 0)"

section \<open>Concrete calls used to instantiate the results\<close>

text \<open>A functor that increments the shared counter, and one that raises after doing so.\<close>

definition counting :: func where
  "counting = \<lparr>effect = Suc, raises = None\<rparr>"

definition failing :: "exn \<Rightarrow> func" where
  "failing x = \<lparr>effect = Suc, raises = Some x\<rparr>"

text \<open>Runner addresses \<open>128, 256, 384, \<dots>\<close>: one 128-byte aligned slot per call.\<close>

definition nth_runner :: "nat \<Rightarrow> uintptr" where
  "nth_runner t = of_nat (128 * (t + 1))"

text \<open>Two calls with counting functors, and two calls whose functors raise.\<close>

definition two_calls :: env where
  "two_calls = \<lparr>ncalls = 2, local_runner = nth_runner, fn = (\<lambda>_. counting)\<rparr>"

definition two_failing :: env where
  "two_failing = \<lparr>ncalls = 2, local_runner = nth_runner, fn = (\<lambda>_. failing (Exn 7))\<rparr>"

text \<open>
  Call 0 has won and is about to run its task; call 1 has registered, waited for the
  initialisation, taken a reference, and is at line 177.
\<close>

definition assisting_state :: config where
  "assisting_state = run two_calls [0, 0, 0, 0, 1, 1, 1, 1, 1, 1] init_config"

text \<open>Call 0 has run the functor and published \<open>done\<close>; call 1 has read \<open>done\<close>; both
  are at their destructor.\<close>

definition returning_state :: config where
  "returning_state = run two_calls [0, 0, 0, 0, 0, 0, 0, 1, 1] init_config"

text \<open>
  The two calls overlap: from \<open>assisting_state\<close> call 1 gives its registration back
  and assists while call 0 runs the functor; call 1 leaves the runner, call 0 publishes
  \<open>done\<close> and returns, and call 1 reads \<open>done\<close> at lines 168-169 and returns.
\<close>

definition overlapped_state :: config where
  "overlapped_state = run two_calls [1, 0, 1, 1, 0, 0, 1, 0, 1, 1, 1, 1] assisting_state"

text \<open>
  The functor of call 0 has raised and call 0 is in the \<^verbatim>\<open>on_exception\<close> loop; call 1
  has handed its registration over to the reference count and is at line 181.
\<close>

definition failing_state :: config where
  "failing_state = run two_failing [0, 0, 0, 0, 1, 1, 1, 1, 1, 1, 0, 0, 1] init_config"

text \<open>130 calls on one flag.  The functor of call 0 raises; the others count.\<close>

definition many_calls :: env where
  "many_calls =
     \<lparr>ncalls = 130, local_runner = nth_runner,
      fn = (\<lambda>t. if t = 0 then failing (Exn 7) else counting)\<rparr>"

text \<open>
  Call 0 wins; call 1 loads the flag word (the address of runner 0) and is preempted;
  the functor of call 0 raises and call 0 resets the flag; call 2 wins; calls 3 to 129
  register one after the other and stay at line 174.
\<close>

definition saturating_schedule :: "nat list" where
  "saturating_schedule =
     [0, 0, 1, 0, 0, 0, 0, 0, 2, 2] @ concat (map (\<lambda>t. [t, t, t, t]) [3..<130])"

definition saturated_state :: config where
  "saturated_state = run many_calls saturating_schedule init_config"

text \<open>Call 1 resumes: loop test, lines 168-169, line 171.\<close>

definition overflow_state :: config where
  "overflow_state = run many_calls [1, 1, 1] saturated_state"

text \<open>
  131 calls whose runners lie 256 bytes apart, so that an address 128 bytes above a
  runner is the address of no runner.  The functor of call 0 raises; the others count.
\<close>

definition wide_runner :: "nat \<Rightarrow> uintptr" where
  "wide_runner t = of_nat (256 * (t + 1))"

definition wide_calls :: env where
  "wide_calls =
     \<lparr>ncalls = 131, local_runner = wide_runner,
      fn = (\<lambda>t. if t = 0 then failing (Exn 7) else counting)\<rparr>"

text \<open>
  The same schedule as above up to the registration of call 1 on top of 127 registered
  calls; then call 130 starts: line 143, loop test, lines 168-169, lines 171-173.
\<close>

definition stray_state :: config where
  "stray_state =
     run wide_calls (saturating_schedule @ [1, 1, 1] @ [130, 130, 130, 130]) init_config"

section \<open>Word arithmetic of the tagged pointer\<close>

lemma mask7: "max_nfs_size - 1 = mask 7"
  by (simp add: max_nfs_size_def bit_count_def mask_eq_exp_minus_1)

lemma maskoff_eq: "maskoff_pointer p = p AND NOT (mask 7)"
  by (simp add: maskoff_pointer_def bit_count_def mask_eq_exp_minus_1)

lemma low_bits_clear: "(p::uintptr) AND mask 7 = 0 \<Longrightarrow> n < 7 \<Longrightarrow> \<not> bit p n"
proof -
  assume a: "p AND mask 7 = 0" and n: "n < 7"
  have "bit (p AND mask 7) n = bit (0::uintptr) n" using a by simp
  then show ?thesis using n by (simp add: bit_simps)
qed

lemma small_bits: "(c::uintptr) \<le> 127 \<Longrightarrow> bit c n \<Longrightarrow> n < 7"
proof -
  assume a: "c \<le> 127" and b: "bit c n"
  have "c < 2 ^ 7" using a by unat_arith
  then have "c AND mask 7 = c" by (rule less_mask_eq)
  then have "bit (c AND mask 7) n" using b by simp
  then show "n < 7" by (simp add: bit_simps)
qed

lemma aligned_add_or:
  assumes p: "(p::uintptr) AND mask 7 = 0" and c: "c \<le> 127"
  shows "p + c = p OR c"
proof -
  have "p AND c = 0"
    by (rule bit_word_eqI) (use low_bits_clear[OF p] small_bits[OF c] in \<open>auto simp: bit_simps\<close>)
  then show ?thesis by (rule disjunctive_add_eq_or)
qed

lemma maskoff_aligned_add:
  assumes p: "(p::uintptr) AND mask 7 = 0" and c: "c \<le> 127"
  shows "maskoff_pointer (p + c) = p"
proof -
  have "(p OR c) AND NOT (mask 7) = p"
    by (rule bit_word_eqI) (use low_bits_clear[OF p] small_bits[OF c] in \<open>auto simp: bit_simps\<close>)
  then show ?thesis by (simp add: maskoff_eq aligned_add_or[OF p c])
qed

lemma mask7_numeral: "mask 7 = (127::uintptr)"
  by (simp add: mask_eq_exp_minus_1)

lemma saturated_aligned_add:
  assumes p: "(p::uintptr) AND mask 7 = 0" and c: "c \<le> 127"
  shows "(p + c) OR mask 7 = p + mask 7"
proof -
  have "(p OR c) OR mask 7 = p OR mask 7"
    by (rule bit_word_eqI) (use low_bits_clear[OF p] small_bits[OF c] in \<open>auto simp: bit_simps\<close>)
  moreover have "p + mask 7 = p OR mask 7" using p by (rule disjunctive_add_eq_or)
  ultimately show ?thesis by (simp add: aligned_add_or[OF p c])
qed

lemma maskoff_nonzero: "128 \<le> unat x \<Longrightarrow> maskoff_pointer x \<noteq> 0"
proof
  assume a: "128 \<le> unat x" and z: "maskoff_pointer x = 0"
  have "x AND mask 7 = x"
  proof (rule bit_word_eqI)
    fix n assume n: "n < LENGTH(64)"
    have "bit (x AND NOT (mask 7)) n = bit (0::uintptr) n" using z by (simp add: maskoff_eq)
    then show "bit (x AND mask 7) n = bit x n" using n by (auto simp: bit_simps)
  qed
  then have "x < 2 ^ 7" by (simp add: mask_eq_iff_w2p word_size)
  then show False using a by unat_arith
qed

lemma aligned_nonzero_ge: "(p::uintptr) AND mask 7 = 0 \<Longrightarrow> p \<noteq> 0 \<Longrightarrow> 128 \<le> unat p"
proof (rule ccontr)
  assume p: "p AND mask 7 = 0" and nz: "p \<noteq> 0" and "\<not> 128 \<le> unat p"
  then have "p < 2 ^ 7" by unat_arith
  then have "p AND mask 7 = p" by (rule less_mask_eq)
  then show False using p nz by simp
qed

lemma maskoff_sentinels: "maskoff_pointer 0 = 0" "maskoff_pointer 1 = 0"
  using maskoff_aligned_add[of 0 0] maskoff_aligned_add[of 0 1] by simp_all

lemma word_le_one: "\<not> (1::uintptr) < x \<Longrightarrow> x = 0 \<or> x = 1"
  by unat_arith

lemma unat_add_of_nat: "unat (a::uintptr) + n < 2 ^ 64 \<Longrightarrow> unat (a + of_nat n) = unat a + n"
proof -
  assume a: "unat a + n < 2 ^ 64"
  then have n: "unat (of_nat n :: uintptr) = n" by (simp add: unat_of_nat)
  then have "unat a + unat (of_nat n :: uintptr) < 2 ^ LENGTH(64)" using a by simp
  then have "unat (a + of_nat n) = unat a + unat (of_nat n :: uintptr)" by (simp only: unat_add_lem)
  then show ?thesis using n by simp
qed

section \<open>What one step does\<close>

text \<open>A step of call \<open>t\<close> changes the locals of no other call.\<close>

lemmas step_unfold = step_def Let_def upd_thread_def upd_runner_def goto_def undefined_behaviour_def
  decode_def compare_exchange_strong_def spin_wait_while_eq_def state_done_def state_uninitialized_def

lemma step_frame: "u \<noteq> t \<Longrightarrow> threads (step e t s) u = threads s u"
  by (cases "pc (threads s t)")
     (simp_all add: step_unfold split: storage.splits option.splits)

lemma step_my_state:
  "my_state (step e t s) =
     (case flag_move_of e t s of
        Stutter \<Rightarrow> my_state s
      | Win \<Rightarrow> local_runner e t
      | Register \<Rightarrow> my_state s + 1
      | Deregister \<Rightarrow> my_state s - 1
      | Publish_done \<Rightarrow> state_done
      | Reset \<Rightarrow> state_uninitialized)"
  by (cases "pc (threads s t)")
     (simp_all add: step_unfold flag_move_of_def split: storage.splits option.splits)

lemma flag_move_Win:
  "flag_move_of e t s = Win \<Longrightarrow> pc (threads s t) = Loop \<and> my_state s = state_uninitialized"
  by (auto simp: flag_move_of_def Let_def split: if_splits pc.splits)

lemma flag_move_Register:
  "flag_move_of e t s = Register \<Longrightarrow> pc (threads s t) = Reg_cas \<and> state_done < my_state s"
  by (auto simp: flag_move_of_def Let_def split: if_splits pc.splits)

lemma flag_move_Deregister:
  "flag_move_of e t s = Deregister \<Longrightarrow> pc (threads s t) = Fetch_sub"
  by (auto simp: flag_move_of_def Let_def split: if_splits pc.splits)

lemma flag_move_Publish_done:
  "flag_move_of e t s = Publish_done \<Longrightarrow>
     pc (threads s t) = Done_cas \<and> my_state s = local_expected (threads s t)"
  by (auto simp: flag_move_of_def Let_def split: if_splits pc.splits)

lemma flag_move_Reset:
  "flag_move_of e t s = Reset \<Longrightarrow>
     (\<exists>x. pc (threads s t) = Reset_cas x) \<and> my_state s = local_expected (threads s t)"
  by (auto simp: flag_move_of_def Let_def split: if_splits pc.splits)

lemma step_winner_pc:
  "winner_pc (pc (threads (step e t s) t)) =
     (case flag_move_of e t s of
        Win \<Rightarrow> True | Publish_done \<Rightarrow> False | Reset \<Rightarrow> False
      | _ \<Rightarrow> winner_pc (pc (threads s t)))"
  by (cases "pc (threads s t)")
     (simp_all add: step_unfold flag_move_of_def split: storage.splits option.splits exit_path.splits)

lemma decode_not_registered:
  "\<not> state_done < expected (threads s t) \<Longrightarrow> \<not> registered_pc (pc (threads (decode t s) t))"
  using word_le_one[of "expected (threads s t)"]
  by (auto simp: decode_def Let_def goto_def upd_thread_def state_done_def maskoff_sentinels)

lemma step_registered_pc:
  "registered_pc (pc (threads (step e t s) t)) =
     (case flag_move_of e t s of
        Register \<Rightarrow> maskoff_pointer (my_state s) \<noteq> 0
      | Deregister \<Rightarrow> False
      | _ \<Rightarrow> registered_pc (pc (threads s t)))"
proof (cases "pc (threads s t)")
  case Reg_cas
  then show ?thesis
    using decode_not_registered[of s t]
    by (simp add: step_def flag_move_of_def compare_exchange_strong_def)
       (simp add: decode_def Let_def upd_thread_def goto_def)
qed (simp_all add: step_unfold flag_move_of_def wait_for_init_def split: storage.splits option.splits exit_path.splits)

lemma winners_step:
  "t < ncalls e \<Longrightarrow> winners e (step e t s) =
     (if winner_pc (pc (threads (step e t s) t)) then insert t (winners e s) else winners e s - {t})"
  by (auto simp: winners_def) (metis step_frame)+

lemma registered_step:
  "t < ncalls e \<Longrightarrow> registered e (step e t s) =
     (if registered_pc (pc (threads (step e t s) t)) then insert t (registered e s) else registered e s - {t})"
  by (auto simp: registered_def) (metis step_frame)+


subsection \<open>Registered calls and tagged addresses\<close>


lemma finite_registered: "finite (registered e s)"
  by (simp add: registered_def)

lemma card_registered_le: "card (registered e s) \<le> ncalls e"
proof -
  have "registered e s \<subseteq> {..<ncalls e}" by (auto simp: registered_def)
  then have "card (registered e s) \<le> card {..<ncalls e}" by (intro card_mono) simp_all
  then show ?thesis by simp
qed

lemma wf_envD:
  assumes "wf_env e" "t < ncalls e"
  shows "local_runner e t AND mask 7 = 0" "local_runner e t \<noteq> 0"
    "unat (local_runner e t) + ncalls e < 2 ^ 64" "128 \<le> unat (local_runner e t)"
proof -
  show a: "local_runner e t AND mask 7 = 0" using assms by (simp add: wf_env_def mask7)
  show b: "local_runner e t \<noteq> 0" using assms by (simp add: wf_env_def)
  show "unat (local_runner e t) + ncalls e < 2 ^ 64" using assms by (simp add: wf_env_def)
  show "128 \<le> unat (local_runner e t)" using a b by (rule aligned_nonzero_ge)
qed

lemma active_word_unat:
  assumes "wf_env e" "w < ncalls e" "k \<le> ncalls e"
  shows "unat (local_runner e w + of_nat k) = unat (local_runner e w) + k"
proof -
  have "unat (local_runner e w) + k < 2 ^ 64" using wf_envD(3)[OF assms(1,2)] assms(3) by simp
  then show ?thesis by (rule unat_add_of_nat)
qed

lemma active_word_ge:
  assumes "wf_env e" "w < ncalls e" "k \<le> ncalls e"
  shows "128 \<le> unat (local_runner e w + of_nat k)"
  using active_word_unat[OF assms] wf_envD(4)[OF assms(1,2)] by simp

lemma active_word_not_sentinel:
  assumes "wf_env e" "w < ncalls e" "k \<le> ncalls e"
  shows "local_runner e w + of_nat k \<noteq> 0" "local_runner e w + of_nat k \<noteq> 1"
  using active_word_ge[OF assms] by auto

lemma active_word_bare:
  assumes "wf_env e" "w < ncalls e" "k \<le> ncalls e"
    and "local_runner e w + of_nat k = local_runner e w"
  shows "k = 0"
  using active_word_unat[OF assms(1-3)] assms(4) by simp

section \<open>The flag invariant\<close>


lemma armed_step:
  assumes "armed_pc (pc (threads s t)) \<longrightarrow> local_expected (threads s t) = local_runner e t"
    and "armed_pc (pc (threads (step e t s) t))"
  shows "local_expected (threads (step e t s) t) = local_runner e t"
  using assms
  by (cases "pc (threads s t)")
     (simp_all add: step_unfold wait_for_init_def split: storage.splits option.splits exit_path.splits if_splits)

lemma winners_step_cases:
  assumes "t < ncalls e"
  shows "winners e (step e t s) =
     (case flag_move_of e t s of
        Win \<Rightarrow> insert t (winners e s)
      | Publish_done \<Rightarrow> winners e s - {t}
      | Reset \<Rightarrow> winners e s - {t}
      | _ \<Rightarrow> winners e s)"
proof -
  have "winner_pc (pc (threads s t)) \<Longrightarrow> insert t (winners e s) = winners e s"
    "\<not> winner_pc (pc (threads s t)) \<Longrightarrow> winners e s - {t} = winners e s"
    using assms by (auto simp: winners_def)
  then show ?thesis
    by (subst winners_step[OF assms]) (simp add: step_winner_pc split: flag_move.splits)
qed

lemma registered_step_cases:
  assumes "t < ncalls e"
  shows "registered e (step e t s) =
     (case flag_move_of e t s of
        Register \<Rightarrow> if maskoff_pointer (my_state s) \<noteq> 0 then insert t (registered e s)
                    else registered e s - {t}
      | Deregister \<Rightarrow> registered e s - {t}
      | _ \<Rightarrow> registered e s)"
proof -
  have "registered_pc (pc (threads s t)) \<Longrightarrow> insert t (registered e s) = registered e s"
    "\<not> registered_pc (pc (threads s t)) \<Longrightarrow> registered e s - {t} = registered e s"
    using assms by (auto simp: registered_def)
  then show ?thesis
    by (subst registered_step[OF assms]) (simp add: step_registered_pc split: flag_move.splits)
qed

lemma inv_flag_init: "inv_flag e init_config"
  by (simp add: inv_flag_def init_config_def init_thread_def winners_def registered_def)

lemma inv_flag_step:
  assumes wf: "wf_env e" and inv: "inv_flag e s" and t: "t < ncalls e"
  shows "inv_flag e (step e t s)"
proof -
  let ?s' = "step e t s"
  let ?W = "winners e s" and ?R = "registered e s"
  have armed: "\<forall>u<ncalls e. armed_pc (pc (threads s u)) \<longrightarrow> local_expected (threads s u) = local_runner e u"
    and act: "\<And>w. w \<in> ?W \<Longrightarrow> ?W = {w} \<and> my_state s = local_runner e w + of_nat (card ?R)"
    and idle: "?W = {} \<Longrightarrow> (my_state s = 0 \<or> my_state s = 1) \<and> ?R = {}"
    using inv by (auto simp: inv_flag_def state_done_def state_uninitialized_def)
  have Wsub: "\<And>w. w \<in> ?W \<Longrightarrow> w < ncalls e" by (simp add: winners_def)
  have armed': "\<forall>u<ncalls e. armed_pc (pc (threads ?s' u)) \<longrightarrow> local_expected (threads ?s' u) = local_runner e u"
  proof (intro allI impI)
    fix u assume u: "u < ncalls e" and a: "armed_pc (pc (threads ?s' u))"
    show "local_expected (threads ?s' u) = local_runner e u"
    proof (cases "u = t")
      case True
      then show ?thesis using armed_step[of s t e] armed t a by simp
    next
      case False
      then show ?thesis using armed u a by (simp add: step_frame)
    qed
  qed
  have active_cases: "(?W = {} \<and> (my_state s = 0 \<or> my_state s = 1) \<and> ?R = {}) \<or>
      (\<exists>w. w < ncalls e \<and> ?W = {w} \<and> my_state s = local_runner e w + of_nat (card ?R))"
    using act idle Wsub by blast
  have main: "(\<forall>w\<in>winners e ?s'. winners e ?s' = {w} \<and>
        my_state ?s' = local_runner e w + of_nat (card (registered e ?s'))) \<and>
     (winners e ?s' = {} \<longrightarrow> (my_state ?s' = 0 \<or> my_state ?s' = 1) \<and> registered e ?s' = {})"
  proof (cases "flag_move_of e t s")
    case Stutter
    have "winners e ?s' = ?W" "registered e ?s' = ?R" "my_state ?s' = my_state s"
      using Stutter t
      by (simp_all add: winners_step_cases registered_step_cases step_my_state)
    then show ?thesis using act idle by auto
  next
    case Win
    then have pc: "pc (threads s t) = Loop" and st: "my_state s = 0"
      using flag_move_Win[of e t s] by (simp_all add: state_uninitialized_def)
    have "?W = {}" "?R = {}"
      using active_cases st active_word_not_sentinel(1)[OF wf _ card_registered_le[of e s]] by auto
    moreover have "winners e ?s' = insert t ?W" "registered e ?s' = ?R" "my_state ?s' = local_runner e t"
      using Win t pc
      by (simp_all add: winners_step_cases registered_step_cases step_my_state)
    ultimately show ?thesis by simp
  next
    case Register
    then have pc: "pc (threads s t) = Reg_cas" and st: "1 < my_state s"
      using flag_move_Register[of e t s] by (simp_all add: state_done_def)
    from st have "my_state s \<noteq> 0" "my_state s \<noteq> 1" by auto
    then obtain w where w: "w < ncalls e" "?W = {w}"
      "my_state s = local_runner e w + of_nat (card ?R)"
      using active_cases by auto
    have "maskoff_pointer (my_state s) \<noteq> 0"
      using active_word_ge[OF wf w(1) card_registered_le[of e s]] w(3) by (simp add: maskoff_nonzero)
    then have "winners e ?s' = ?W" "registered e ?s' = insert t ?R" "my_state ?s' = my_state s + 1"
      using Register t pc
      by (simp_all add: winners_step_cases registered_step_cases step_my_state)
    moreover have "t \<notin> ?R" using pc by (simp add: registered_def)
    then have "card (insert t ?R) = Suc (card ?R)" by (simp add: finite_registered)
    ultimately show ?thesis using w by simp
  next
    case Deregister
    then have pc: "pc (threads s t) = Fetch_sub" by (rule flag_move_Deregister)
    then have tR: "t \<in> ?R" using t by (simp add: registered_def)
    then obtain w where w: "w < ncalls e" "?W = {w}"
      "my_state s = local_runner e w + of_nat (card ?R)"
      using active_cases by auto
    have "winners e ?s' = ?W" "registered e ?s' = ?R - {t}" "my_state ?s' = my_state s - 1"
      using Deregister t pc
      by (simp_all add: winners_step_cases registered_step_cases step_my_state)
    note eqs = this
    have "card ?R = Suc (card (?R - {t}))"
      using finite_registered tR by (rule card.remove)
    then have "my_state s - 1 = local_runner e w + of_nat (card (?R - {t}))"
      by (simp only: w(3) of_nat_Suc) simp
    then show ?thesis by (simp only: eqs w(2)) simp
  next
    case Publish_done
    then have pc: "pc (threads s t) = Done_cas" and st: "my_state s = local_expected (threads s t)"
      using flag_move_Publish_done[of e t s] by simp_all
    then have tW: "t \<in> ?W" using t by (simp add: winners_def)
    then have W: "?W = {t}" and st2: "my_state s = local_runner e t + of_nat (card ?R)"
      using act by auto
    have "local_expected (threads s t) = local_runner e t" using armed t pc by simp
    then have "card ?R = 0"
      using active_word_bare[OF wf t card_registered_le[of e s]] st st2 by simp
    then have R: "?R = {}" by (simp add: finite_registered)
    have "winners e ?s' = ?W - {t}" "registered e ?s' = ?R" "my_state ?s' = 1"
      using Publish_done t pc
      by (simp_all add: winners_step_cases registered_step_cases step_my_state state_done_def)
    then show ?thesis using W R by simp
  next
    case Reset
    then obtain x where pc: "pc (threads s t) = Reset_cas x" and st: "my_state s = local_expected (threads s t)"
      using flag_move_Reset[of e t s] by auto
    then have tW: "t \<in> ?W" using t by (simp add: winners_def)
    then have W: "?W = {t}" and st2: "my_state s = local_runner e t + of_nat (card ?R)"
      using act by auto
    have "local_expected (threads s t) = local_runner e t" using armed t pc by simp
    then have "card ?R = 0"
      using active_word_bare[OF wf t card_registered_le[of e s]] st st2 by simp
    then have R: "?R = {}" by (simp add: finite_registered)
    have "winners e ?s' = ?W - {t}" "registered e ?s' = ?R" "my_state ?s' = 0"
      using Reset t pc
      by (simp_all add: winners_step_cases registered_step_cases step_my_state state_uninitialized_def)
    then show ?thesis using W R by simp
  qed
  show ?thesis
    unfolding inv_flag_def using armed' main by (simp add: state_done_def state_uninitialized_def)
qed

lemma reachable_inv_flag: "reachable e s \<Longrightarrow> wf_env e \<Longrightarrow> inv_flag e s"
  by (induction rule: reachable.induct) (simp_all add: inv_flag_init inv_flag_step)

section \<open>The runner of a call\<close>


lemmas runner_unfold = once_runner_ctor_def once_runner_dtor_def make_runner_def wait_for_init_def
  increase_ref_def decrease_ref_def spin_wait_while_def await_zero_def run_once_reserve_def
  run_once_task_def run_once_wait_def assist_def

lemma own_ok_same_body: "same_body r r' \<Longrightarrow> own_ok f p r' = own_ok f p r"
  by (cases "(f, p, r)" rule: own_ok.cases) (simp_all add: same_body_def unbuilt_def built_with_def)

lemma step_heap_other:
  "a \<noteq> local_runner e t \<Longrightarrow> same_body (heap s a) (heap (step e t s) a)"
  by (cases "pc (threads s t)")
     (simp_all add: step_unfold same_body_def runner_unfold split: storage.splits option.splits)

lemma step_own:
  assumes "own_ok (fn e t) (pc (threads s t)) (heap s (local_runner e t))"
  shows "own_ok (fn e t) (pc (threads (step e t s) t)) (heap (step e t s) (local_runner e t))"
proof (cases "ub (threads s t)")
  case True
  then show ?thesis using assms by (simp add: step_def)
next
  case False
  show ?thesis
  proof (cases "pc (threads s t)")
    case (Dtor p)
    then show ?thesis using assms False
      by (cases p)
         (auto simp: step_unfold unbuilt_def built_with_def runner_unfold split: option.splits)
  next
    case Reg_cas
    then show ?thesis using assms False
      by (auto simp: step_unfold unbuilt_def)
  qed (use assms False in \<open>auto simp: step_unfold unbuilt_def built_with_def runner_unfold
        split: storage.splits option.splits\<close>)
qed

lemma inv_own_init: "inv_own e init_config"
  by (simp add: inv_own_def init_config_def init_thread_def)

lemma inv_own_step:
  assumes wf: "wf_env e" and inv: "inv_own e s" and t: "t < ncalls e"
  shows "inv_own e (step e t s)"
  unfolding inv_own_def
proof (intro allI impI)
  fix u assume u: "u < ncalls e"
  have ok: "own_ok (fn e u) (pc (threads s u)) (heap s (local_runner e u))"
    using inv u by (simp add: inv_own_def)
  show "own_ok (fn e u) (pc (threads (step e t s) u)) (heap (step e t s) (local_runner e u))"
  proof (cases "u = t")
    case True
    then show ?thesis using step_own[of e t s] ok by simp
  next
    case False
    have "inj_on (local_runner e) {..<ncalls e}" using wf by (simp add: wf_env_def)
    then have "local_runner e u \<noteq> local_runner e t"
      using False u t by (auto simp: inj_on_def)
    then have "same_body (heap s (local_runner e u)) (heap (step e t s) (local_runner e u))"
      by (rule step_heap_other)
    then show ?thesis using ok False by (simp add: own_ok_same_body step_frame)
  qed
qed

lemma reachable_inv_own: "reachable e s \<Longrightarrow> wf_env e \<Longrightarrow> inv_own e s"
  by (induction rule: reachable.induct) (simp_all add: inv_own_init inv_own_step)

section \<open>Reference counts\<close>


lemma finite_holders: "finite (holders e s a)"
  by (simp add: holders_def)

lemma ref_move_Construct: "ref_move_of e t s = Construct \<Longrightarrow> pc (threads s t) = Start"
  by (auto simp: ref_move_of_def Let_def split: if_splits pc.splits)

lemma ref_move_Destroy:
  "ref_move_of e t s = Destroy \<Longrightarrow>
     (\<exists>p. pc (threads s t) = Dtor p) \<and> ref_count (heap s (local_runner e t)) \<le> 0"
  by (auto simp: ref_move_of_def Let_def split: if_splits pc.splits)

lemma ref_move_Acquire:
  "ref_move_of e t s = Acquire \<Longrightarrow> pc (threads s t) = Inc_ref \<and> live (heap s (runner (threads s t)))"
  by (auto simp: ref_move_of_def Let_def split: if_splits pc.splits)

lemma ref_move_Release:
  "ref_move_of e t s = Release \<Longrightarrow> pc (threads s t) = Dec_ref \<and> live (heap s (runner (threads s t)))"
  by (auto simp: ref_move_of_def Let_def split: if_splits pc.splits)

lemma step_holds_ref_pc:
  "holds_ref_pc (pc (threads (step e t s) t)) =
     (case ref_move_of e t s of
        Acquire \<Rightarrow> True | Release \<Rightarrow> False
      | _ \<Rightarrow> holds_ref_pc (pc (threads s t)))"
  by (cases "pc (threads s t)")
     (simp_all add: step_unfold ref_move_of_def runner_unfold split: storage.splits option.splits exit_path.splits)

lemma step_runner_kept:
  "pc (threads s t) \<noteq> Reg_cas \<Longrightarrow> runner (threads (step e t s) t) = runner (threads s t)"
  by (cases "pc (threads s t)")
     (simp_all add: step_unfold runner_unfold split: storage.splits option.splits exit_path.splits)

lemma holders_step:
  "t < ncalls e \<Longrightarrow> holders e (step e t s) a =
     (if holds_ref_pc (pc (threads (step e t s) t)) \<and> runner (threads (step e t s) t) = a
      then insert t (holders e s a) else holders e s a - {t})"
  by (auto simp: holders_def) (metis step_frame)+

lemma holders_step_cases:
  assumes "t < ncalls e"
  shows "holders e (step e t s) a =
     (case ref_move_of e t s of
        Acquire \<Rightarrow> if a = runner (threads s t) then insert t (holders e s a) else holders e s a
      | Release \<Rightarrow> if a = runner (threads s t) then holders e s a - {t} else holders e s a
      | _ \<Rightarrow> holders e s a)"
proof -
  let ?H = "holders e s a"
  have ins: "holds_ref_pc (pc (threads s t)) \<Longrightarrow> runner (threads s t) = a \<Longrightarrow> insert t ?H = ?H"
    and del1: "\<not> holds_ref_pc (pc (threads s t)) \<Longrightarrow> ?H - {t} = ?H"
    and del2: "runner (threads s t) \<noteq> a \<Longrightarrow> ?H - {t} = ?H"
    using assms by (auto simp: holders_def)
  have kept: "pc (threads s t) \<noteq> Reg_cas \<Longrightarrow>
      holders e (step e t s) a =
        (if holds_ref_pc (pc (threads (step e t s) t)) \<and> runner (threads s t) = a
         then insert t ?H else ?H - {t})"
    by (subst holders_step[OF assms]) (simp add: step_runner_kept)
  have reg: "pc (threads s t) = Reg_cas \<Longrightarrow> holders e (step e t s) a = ?H"
    by (subst holders_step[OF assms]) (simp add: step_holds_ref_pc ref_move_of_def Let_def del1)
  show ?thesis
  proof (cases "pc (threads s t) = Reg_cas")
    case True
    then show ?thesis by (simp add: reg ref_move_of_def Let_def)
  next
    case False
    note k = kept[OF False]
    show ?thesis
    proof (cases "runner (threads s t) = a")
      case True
      then show ?thesis
        using ins del1 by (cases "ref_move_of e t s") (auto simp: k step_holds_ref_pc)
    next
      case False
      then have "a \<noteq> runner (threads s t)" by auto
      then show ?thesis
        using False del2 by (cases "ref_move_of e t s") (simp_all add: k)
    qed
  qed
qed

lemma step_ref_count:
  "ref_count (heap (step e t s) a) =
     (case ref_move_of e t s of
        Acquire \<Rightarrow> if a = runner (threads s t) then ref_count (heap s a) + 1 else ref_count (heap s a)
      | Release \<Rightarrow> if a = runner (threads s t) then ref_count (heap s a) - 1 else ref_count (heap s a)
      | Construct \<Rightarrow> if a = local_runner e t then 0 else ref_count (heap s a)
      | _ \<Rightarrow> ref_count (heap s a))"
  by (cases "pc (threads s t)")
     (simp_all add: step_unfold ref_move_of_def runner_unfold split: storage.splits option.splits exit_path.splits)

lemma step_live:
  "live (heap (step e t s) a) =
     (case ref_move_of e t s of
        Construct \<Rightarrow> if a = local_runner e t then True else live (heap s a)
      | Destroy \<Rightarrow> if a = local_runner e t then False else live (heap s a)
      | _ \<Rightarrow> live (heap s a))"
  by (cases "pc (threads s t)")
     (simp_all add: step_unfold ref_move_of_def runner_unfold split: storage.splits option.splits exit_path.splits)

lemma inv_ref_init: "inv_ref e init_config"
  by (simp add: inv_ref_def init_config_def init_thread_def holders_def)

lemma inv_ref_step:
  assumes own: "inv_own e s" and inv: "inv_ref e s" and t: "t < ncalls e"
  shows "inv_ref e (step e t s)"
  unfolding inv_ref_def
proof (intro allI)
  fix a
  let ?H = "holders e s a"
  have rc: "ref_count (heap s a) = int (card ?H)" and lv: "?H \<noteq> {} \<Longrightarrow> live (heap s a)"
    using inv by (simp_all add: inv_ref_def)
  show "ref_count (heap (step e t s) a) = int (card (holders e (step e t s) a)) \<and>
        (holders e (step e t s) a \<noteq> {} \<longrightarrow> live (heap (step e t s) a))"
  proof (cases "ref_move_of e t s")
    case Other
    then show ?thesis using rc lv
      by (simp add: holders_step_cases[OF t] step_ref_count step_live)
  next
    case Construct
    then have "pc (threads s t) = Start" by (rule ref_move_Construct)
    then have "\<not> live (heap s (local_runner e t))" using own t by (auto simp: inv_own_def)
    then have "a = local_runner e t \<Longrightarrow> ?H = {}" using lv by auto
    then show ?thesis using Construct rc lv
      by (auto simp: holders_step_cases[OF t] step_ref_count step_live)
  next
    case Destroy
    then have "ref_count (heap s (local_runner e t)) \<le> 0" using ref_move_Destroy by blast
    then have "a = local_runner e t \<Longrightarrow> ?H = {}" using rc finite_holders[of e s a] by auto
    then show ?thesis using Destroy rc lv
      by (auto simp: holders_step_cases[OF t] step_ref_count step_live)
  next
    case Acquire
    then have pc: "pc (threads s t) = Inc_ref" and l: "live (heap s (runner (threads s t)))"
      using ref_move_Acquire by blast+
    have "t \<notin> ?H" using pc by (simp add: holders_def)
    then have "card (insert t ?H) = Suc (card ?H)" by (simp add: finite_holders)
    then show ?thesis using Acquire rc lv l
      by (auto simp: holders_step_cases[OF t] step_ref_count step_live)
  next
    case Release
    then have pc: "pc (threads s t) = Dec_ref" and l: "live (heap s (runner (threads s t)))"
      using ref_move_Release by blast+
    have "a = runner (threads s t) \<Longrightarrow> t \<in> ?H" using pc t by (simp add: holders_def)
    then have "a = runner (threads s t) \<Longrightarrow> card ?H = Suc (card (?H - {t}))"
      using finite_holders by (intro card.remove)
    then have "a = runner (threads s t) \<Longrightarrow> ref_count (heap s a) - 1 = int (card (?H - {t}))"
      using rc by simp
    then show ?thesis using Release rc lv l
      by (auto simp: holders_step_cases[OF t] step_ref_count step_live)
  qed
qed

lemma reachable_inv_ref: "reachable e s \<Longrightarrow> wf_env e \<Longrightarrow> inv_ref e s"
  by (induction rule: reachable.induct)
     (simp_all add: inv_ref_init inv_ref_step reachable_inv_own)

section \<open>Schedules and concrete environments\<close>


lemma run_append: "run e (ts @ us) s = run e us (run e ts s)"
  by (induction ts arbitrary: s) simp_all

lemma run_reachable: "reachable e s \<Longrightarrow> \<forall>t\<in>set ts. t < ncalls e \<Longrightarrow> reachable e (run e ts s)"
  by (induction ts arbitrary: s) (simp_all add: reachable_step)

lemma nth_runner_aligned: "nth_runner t AND mask 7 = 0"
proof -
  have "nth_runner t = push_bit 7 (of_nat (t + 1))" by (simp add: nth_runner_def push_bit_eq_mult)
  then show ?thesis by (simp add: bit_eq_iff bit_simps)
qed

lemma nth_runner_unat: "t < 1000000 \<Longrightarrow> unat (nth_runner t) = 128 * (t + 1)"
proof -
  assume t: "t < 1000000"
  then have "128 * (t + 1) < (2::nat) ^ 64" by simp
  then have "128 * (t + 1) mod 2 ^ LENGTH(64) = 128 * (t + 1)" by simp
  then show ?thesis unfolding nth_runner_def unat_of_nat .
qed

lemma wf_env_nth_runner:
  assumes "local_runner e = nth_runner" "ncalls e < 1000000"
  shows "wf_env e"
proof -
  have u: "unat (nth_runner t) = 128 * (t + 1)" if "t < ncalls e" for t
    using that assms(2) by (intro nth_runner_unat) simp
  have nz: "nth_runner t \<noteq> 0" if "t < ncalls e" for t
  proof
    assume "nth_runner t = 0"
    then have "unat (nth_runner t) = 0" by simp
    then show False using u[OF that] by simp
  qed
  have bound: "unat (nth_runner t) + ncalls e < 2 ^ 64" if "t < ncalls e" for t
  proof -
    have "128 * (t + 1) + ncalls e < 129000128" using that assms(2) by simp
    moreover have "(129000128::nat) < 2 ^ 64" by simp
    ultimately have "128 * (t + 1) + ncalls e < 2 ^ 64" by (rule less_trans)
    then show ?thesis by (simp only: u[OF that])
  qed
  have "inj_on nth_runner {..<ncalls e}"
  proof (rule inj_onI)
    fix a b assume a: "a \<in> {..<ncalls e}" and b: "b \<in> {..<ncalls e}"
      and eq: "nth_runner a = nth_runner b"
    have ua: "unat (nth_runner a) = 128 * (a + 1)" using a by (intro u) simp
    have ub: "unat (nth_runner b) = 128 * (b + 1)" using b by (intro u) simp
    have "unat (nth_runner a) = unat (nth_runner b)" using eq by (rule arg_cong)
    then have "128 * (a + 1) = 128 * (b + 1)" by (simp only: ua ub)
    then show "a = b" by simp
  qed
  then show ?thesis
    using nz bound by (simp add: wf_env_def assms(1) mask7 nth_runner_aligned)
qed

lemma wf_two_calls: "wf_env two_calls"
  by (rule wf_env_nth_runner) (simp_all add: two_calls_def)


lemma maskoff_eval: "maskoff_pointer x = x - (x AND 127)"
proof -
  have "(x AND NOT (mask 7)) AND (x AND mask 7) = 0"
    by (rule bit_word_eqI) (auto simp: bit_simps)
  then have "(x AND NOT (mask 7)) + (x AND mask 7) = (x AND NOT (mask 7)) OR (x AND mask 7)"
    by (rule disjunctive_add_eq_or)
  also have "\<dots> = x" by (rule bit_word_eqI) (auto simp: bit_simps)
  finally show ?thesis by (simp add: maskoff_eq mask7_numeral[symmetric] algebra_simps)
qed

lemmas eval_unfold = step_unfold runner_unfold init_config_def init_thread_def two_calls_def
  nth_runner_def counting_def failing_def max_nfs_size_def bit_count_def maskoff_eval

lemma assisting_state_facts:
  "my_state assisting_state = 129"
  "pc (threads assisting_state 0) = Run_task"
  "pc (threads assisting_state 1) = Fetch_sub"
  "runner (threads assisting_state 1) = 128"
  "\<not> ub (threads assisting_state 1)"
  "\<not> ub (threads assisting_state 0)"
  "ref_count (heap assisting_state 128) = 1"
  "shared assisting_state = 0"
  by (simp_all add: assisting_state_def eval_unfold)

lemma assisting_state_reachable: "reachable two_calls assisting_state"
  unfolding assisting_state_def
  by (rule run_reachable[OF reachable_init]) (simp add: two_calls_def)

lemma returning_state_facts:
  "my_state returning_state = 1"
  "pc (threads returning_state 0) = Dtor Exit_winner"
  "pc (threads returning_state 1) = Dtor Exit_loop"
  "\<not> ub (threads returning_state 1)"
  "\<not> ub (threads returning_state 0)"
  "shared returning_state = 1"
  "m_initialized (heap returning_state (local_runner two_calls 0))"
  "\<not> m_initialized (heap returning_state (local_runner two_calls 1))"
  by (simp_all add: returning_state_def eval_unfold)

lemma returning_state_reachable: "reachable two_calls returning_state"
  unfolding returning_state_def
  by (rule run_reachable[OF reachable_init]) (simp add: two_calls_def)

lemma own_ok_at:
  assumes "wf_env e" "reachable e s" "t < ncalls e"
  shows "own_ok (fn e t) (pc (threads s t)) (heap s (local_runner e t))"
  using reachable_inv_own[OF assms(2,1)] assms(3) by (simp add: inv_own_def)

lemma ref_count_nonneg:
  assumes "wf_env e" "reachable e s"
  shows "0 \<le> ref_count (heap s a)"
  using reachable_inv_ref[OF assms(2,1)] by (simp add: inv_ref_def)

lemma wf_two_failing: "wf_env two_failing"
  by (rule wf_env_nth_runner) (simp_all add: two_failing_def)

lemma failing_state_facts:
  "my_state failing_state = 128"
  "pc (threads failing_state 0) = Reset_cas (Exn 7)"
  "pc (threads failing_state 1) = Assist"
  "\<not> ub (threads failing_state 1)"
  "\<not> ub (threads failing_state 0)"
  "shared failing_state = 1"
  "runner (threads failing_state 1) = 128"
  by (simp_all add: failing_state_def two_failing_def eval_unfold)

lemma failing_state_reachable: "reachable two_failing failing_state"
  unfolding failing_state_def
  by (rule run_reachable[OF reachable_init]) (simp add: two_failing_def)

lemma failing_state_drained: "registered two_failing failing_state = {}"
proof -
  have "\<not> registered_pc (pc (threads failing_state t))" if "t < 2" for t
  proof -
    from that have "t = 0 \<or> t = 1" by auto
    then show ?thesis using failing_state_facts(2,3) by auto
  qed
  then show ?thesis by (simp add: registered_def two_failing_def)
qed

section \<open>The flag stays done; the counter\<close>


lemma flag_idle_or_active:
  assumes "inv_flag e s"
  shows "(winners e s = {} \<and> (my_state s = 0 \<or> my_state s = 1) \<and> registered e s = {}) \<or>
         (\<exists>w<ncalls e. winners e s = {w} \<and>
            my_state s = local_runner e w + of_nat (card (registered e s)))"
proof (cases "winners e s = {}")
  case True
  then show ?thesis using assms by (simp add: inv_flag_def state_done_def state_uninitialized_def)
next
  case False
  then obtain w where w: "w \<in> winners e s" by auto
  then have "w < ncalls e" by (simp add: winners_def)
  then show ?thesis using assms w by (auto simp: inv_flag_def)
qed

lemma active_not_done:
  assumes wf: "wf_env e" and inv: "inv_flag e s" and w: "w \<in> winners e s"
  shows "my_state s \<noteq> 0" "my_state s \<noteq> 1" "128 \<le> unat (my_state s)"
proof -
  have lt: "w < ncalls e" using w by (simp add: winners_def)
  have st: "my_state s = local_runner e w + of_nat (card (registered e s))"
    using inv w by (simp add: inv_flag_def)
  show "128 \<le> unat (my_state s)"
    using active_word_ge[OF wf lt card_registered_le[of e s]] st by simp
  then show "my_state s \<noteq> 0" "my_state s \<noteq> 1" by auto
qed

lemma done_absorbing:
  assumes wf: "wf_env e" and inv: "inv_flag e s" and t: "t < ncalls e"
    and d: "my_state s = state_done"
  shows "my_state (step e t s) = state_done"
proof -
  have noW: "winners e s = {}"
    using active_not_done(2)[OF wf inv] d by (auto simp: state_done_def)
  then have noR: "registered e s = {}" using inv by (simp add: inv_flag_def)
  have "flag_move_of e t s = Stutter"
  proof (cases "flag_move_of e t s")
    case Win
    then show ?thesis using flag_move_Win[of e t s] d by (simp add: state_done_def state_uninitialized_def)
  next
    case Register
    then show ?thesis using flag_move_Register[of e t s] d by simp
  next
    case Deregister
    then have "t \<in> registered e s" using flag_move_Deregister[of e t s] t by (simp add: registered_def)
    then show ?thesis using noR by simp
  next
    case Publish_done
    then have "t \<in> winners e s" using flag_move_Publish_done[of e t s] t by (simp add: winners_def)
    then show ?thesis using noW by simp
  next
    case Reset
    then have "t \<in> winners e s" using flag_move_Reset[of e t s] t by (auto simp: winners_def)
    then show ?thesis using noW by simp
  qed
  then show ?thesis using d by (simp add: step_my_state)
qed

lemma done_only_published:
  assumes wf: "wf_env e" and inv: "inv_flag e s" and t: "t < ncalls e"
    and d: "my_state (step e t s) = state_done" and n: "my_state s \<noteq> state_done"
  shows "flag_move_of e t s = Publish_done"
proof (cases "flag_move_of e t s")
  case Stutter
  then show ?thesis using d n by (simp add: step_my_state)
next
  case Win
  then have "my_state (step e t s) = local_runner e t" by (simp add: step_my_state)
  then show ?thesis using d wf_envD(4)[OF wf t] by (simp add: state_done_def)
next
  case Register
  then have "1 < my_state s" "my_state (step e t s) = my_state s + 1"
    using flag_move_Register[of e t s] by (simp_all add: step_my_state state_done_def)
  then have "my_state (step e t s) \<noteq> 1" by unat_arith
  then show ?thesis using d by (simp add: state_done_def)
next
  case Deregister
  have inv': "inv_flag e (step e t s)" using wf inv t by (rule inv_flag_step)
  have "t \<in> registered e s" using flag_move_Deregister[OF Deregister] t by (simp add: registered_def)
  then obtain w where "w \<in> winners e s" using inv by (auto simp: inv_flag_def)
  then have "w \<in> winners e (step e t s)" using Deregister t by (simp add: winners_step_cases)
  then have "my_state (step e t s) \<noteq> 1" by (rule active_not_done(2)[OF wf inv'])
  then show ?thesis using d by (simp add: state_done_def)
next
  case Publish_done
  then show ?thesis .
next
  case Reset
  then show ?thesis using d by (simp add: step_my_state state_done_def state_uninitialized_def)
qed

lemma step_expected_done:
  assumes "expected (threads (step e t s) t) = state_done"
  shows "expected (threads s t) = state_done \<or> my_state s = state_done"
  using assms
  by (cases "pc (threads s t)")
     (auto simp: step_unfold runner_unfold split: storage.splits option.splits if_splits)

lemma step_returning:
  assumes "returning_pc (pc (threads (step e t s) t))"
  shows "returning_pc (pc (threads s t)) \<or> expected (threads s t) = state_done \<or>
         flag_move_of e t s = Publish_done"
  using assms
  by (cases "pc (threads s t)")
     (auto simp: step_unfold runner_unfold flag_move_of_def
        split: storage.splits option.splits if_splits exit_path.splits)

lemma inv_done_init: "inv_done e init_config"
  by (simp add: inv_done_def init_config_def init_thread_def state_done_def)

lemma inv_done_step:
  assumes wf: "wf_env e" and inv: "inv_flag e s" and d: "inv_done e s" and t: "t < ncalls e"
  shows "inv_done e (step e t s)"
  unfolding inv_done_def
proof (intro allI impI)
  fix u assume u: "u < ncalls e"
    and h: "expected (threads (step e t s) u) = state_done \<or> returning_pc (pc (threads (step e t s) u))"
  have keep: "my_state s = state_done \<Longrightarrow> my_state (step e t s) = state_done"
    using done_absorbing[OF wf inv t] .
  show "my_state (step e t s) = state_done"
  proof (cases "u = t")
    case False
    then have "expected (threads s u) = state_done \<or> returning_pc (pc (threads s u))"
      using h by (simp add: step_frame)
    then have "my_state s = state_done" using d u unfolding inv_done_def by blast
    then show ?thesis by (rule keep)
  next
    case True
    then have "expected (threads s t) = state_done \<or> returning_pc (pc (threads s t)) \<or>
        my_state s = state_done \<or> flag_move_of e t s = Publish_done"
      using h step_expected_done[of e t s] step_returning[of e t s] by auto
    moreover have "flag_move_of e t s = Publish_done \<Longrightarrow> my_state (step e t s) = state_done"
      by (simp add: step_my_state)
    moreover have "expected (threads s t) = state_done \<or> returning_pc (pc (threads s t)) \<Longrightarrow>
        my_state s = state_done"
      using d t unfolding inv_done_def by blast
    ultimately show ?thesis using keep by blast
  qed
qed

lemma reachable_inv_done: "reachable e s \<Longrightarrow> wf_env e \<Longrightarrow> inv_done e s"
  by (induction rule: reachable.induct)
     (simp_all add: inv_done_init inv_done_step reachable_inv_flag)


lemma after_task_step:
  "t < ncalls e \<Longrightarrow> after_task e (step e t s) =
     (if after_task_pc (pc (threads (step e t s) t)) then insert t (after_task e s)
      else after_task e s - {t})"
  by (auto simp: after_task_def) (metis step_frame)+

lemma after_task_subset: "after_task e s \<subseteq> winners e s"
proof
  fix t assume "t \<in> after_task e s"
  then have "t < ncalls e" "after_task_pc (pc (threads s t))" by (simp_all add: after_task_def)
  then show "t \<in> winners e s" by (cases "pc (threads s t)") (simp_all add: winners_def)
qed

lemma inv_count_init: "inv_count e init_config"
  by (simp add: inv_count_def init_config_def init_thread_def after_task_def
      state_done_def state_uninitialized_def)

lemma inv_count_step:
  assumes wf: "wf_env e" and inv: "inv_flag e s" and own: "inv_own e s" and c: "inv_count e s"
    and t: "t < ncalls e" and f: "fn e t = counting"
  shows "inv_count e (step e t s)"
proof -
  let ?s' = "step e t s"
  let ?A = "after_task e s"
  have ok: "own_ok counting (pc (threads s t)) (heap s (local_runner e t))"
    using own t f by (auto simp: inv_own_def)
  have sh: "shared s = (if my_state s = state_done \<or> ?A \<noteq> {} then 1 else 0)"
    using c by (simp add: inv_count_def)
  have ins: "after_task_pc (pc (threads s t)) \<Longrightarrow> insert t ?A = ?A"
    and del: "\<not> after_task_pc (pc (threads s t)) \<Longrightarrow> ?A - {t} = ?A"
    using t by (auto simp: after_task_def)
  have goal: "shared ?s' = (if my_state ?s' = state_done \<or> after_task e ?s' \<noteq> {} then 1 else 0)"
  proof (cases "ub (threads s t)")
    case True
    then show ?thesis using sh by (simp add: step_def)
  next
    case nub: False
    show ?thesis
    proof (cases "pc (threads s t) = Run_task \<or> pc (threads s t) = Run_wait \<or>
        pc (threads s t) = Done_cas \<or> (\<exists>x. pc (threads s t) = Reset_cas x)")
      case False
      then have npub: "flag_move_of e t s \<noteq> Publish_done"
        using flag_move_Publish_done[of e t s] by auto
      have "after_task_pc (pc (threads ?s' t)) = after_task_pc (pc (threads s t))"
        using False nub
        by (cases "pc (threads s t)")
           (auto simp: step_unfold runner_unfold split: storage.splits option.splits exit_path.splits)
      then have A: "after_task e ?s' = ?A" using ins del by (simp add: after_task_step[OF t])
      have S: "shared ?s' = shared s"
        using False nub
        by (cases "pc (threads s t)")
           (auto simp: step_unfold runner_unfold split: storage.splits option.splits exit_path.splits)
      have D: "my_state ?s' = state_done \<longleftrightarrow> my_state s = state_done"
        using done_absorbing[OF wf inv t] done_only_published[OF wf inv t] npub by blast
      show ?thesis using sh by (simp add: A S D)
    next
      case True
      then have tW: "t \<in> winners e s" using t by (auto simp: winners_def)
      then have W: "winners e s = {t}" using inv by (simp add: inv_flag_def)
      have nd: "my_state s \<noteq> state_done"
        using active_not_done(2)[OF wf inv tW] by (simp add: state_done_def)
      have Asub: "?A \<subseteq> {t}" using after_task_subset[of e s] W by simp
      from True consider (at_task) "pc (threads s t) = Run_task" | (at_wait) "pc (threads s t) = Run_wait"
        | (at_done) "pc (threads s t) = Done_cas" | (at_reset) x where "pc (threads s t) = Reset_cas x"
        by blast
      then show ?thesis
      proof cases
        case at_task
        then have "t \<notin> ?A" by (simp add: after_task_def)
        then have "?A = {}" using Asub by auto
        then have s0: "shared s = 0" using sh nd by simp
        have "shared ?s' = 1" "after_task_pc (pc (threads ?s' t))"
          using at_task nub ok s0 f by (simp_all add: step_unfold built_with_def counting_def)
        then show ?thesis by (simp add: after_task_step[OF t])
      next
        case at_wait
        then have "t \<in> ?A" using t by (simp add: after_task_def)
        then have s1: "shared s = 1" using sh by auto
        have "shared ?s' = 1" "after_task_pc (pc (threads ?s' t))"
          using at_wait nub ok s1 f by (simp_all add: step_unfold runner_unfold built_with_def counting_def)
        then show ?thesis by (simp add: after_task_step[OF t])
      next
        case at_done
        then have "t \<in> ?A" using t by (simp add: after_task_def)
        then have s1: "shared s = 1" using sh by auto
        have "shared ?s' = 1"
          "after_task_pc (pc (threads ?s' t)) \<or> my_state ?s' = state_done"
          using at_done nub s1 by (simp_all add: step_unfold)
        then show ?thesis by (auto simp: after_task_step[OF t])
      next
        case at_reset
        then show ?thesis using ok by (simp add: counting_def)
      qed
    qed
  qed
  then show ?thesis by (simp add: inv_count_def)
qed

lemma reachable_inv_count:
  "reachable e s \<Longrightarrow> wf_env e \<Longrightarrow> \<forall>t<ncalls e. fn e t = counting \<Longrightarrow> inv_count e s"
  by (induction rule: reachable.induct)
     (simp_all add: inv_count_init inv_count_step reachable_inv_flag reachable_inv_own)


lemma overlapped_state_facts:
  "pc (threads overlapped_state 0) = Returned"
  "pc (threads overlapped_state 1) = Returned"
  "shared overlapped_state = 1"
  "my_state overlapped_state = 1"
  by (simp_all add: overlapped_state_def assisting_state_def eval_unfold)

lemma overlapped_state_reachable: "reachable two_calls overlapped_state"
  unfolding overlapped_state_def
  by (rule run_reachable[OF assisting_state_reachable]) (simp add: two_calls_def)

lemma failing_state_winner: "winners two_failing failing_state = {0}"
proof -
  have "t \<in> winners two_failing failing_state \<longleftrightarrow> t = 0" for t
  proof -
    have "t < 2 \<longleftrightarrow> t = 0 \<or> t = 1" by auto
    then show ?thesis using failing_state_facts(2,3) by (auto simp: winners_def two_failing_def)
  qed
  then show ?thesis by auto
qed

section \<open>A run that overflows the admission count\<close>

text \<open>
  Four steps of a fresh call register it on an active flag whose count is below 127;
  so a list of fresh calls, one after the other, raises the count by its length.
\<close>


lemma unat_of_nat_small: "k \<le> 127 \<Longrightarrow> unat (of_nat k :: uintptr) = k"
proof -
  assume "k \<le> 127"
  then have "k < 2 ^ LENGTH(64)" by simp
  then have "k mod 2 ^ LENGTH(64) = k" by simp
  then show ?thesis unfolding unat_of_nat .
qed

lemma of_nat_le_127: "k \<le> 127 \<Longrightarrow> (of_nat k :: uintptr) \<le> 127"
  by (simp add: word_le_nat_alt unat_of_nat_small)

lemma of_nat_neq_127: "k < 127 \<Longrightarrow> (of_nat k :: uintptr) \<noteq> 127"
proof
  assume k: "k < 127" and "(of_nat k :: uintptr) = 127"
  then have "unat (of_nat k :: uintptr) = 127" by simp
  then show False using k by (simp add: unat_of_nat_small)
qed

lemma tagged_above_done:
  assumes "(b::uintptr) AND mask 7 = 0" "128 \<le> unat b" "k \<le> 127"
  shows "1 < b + of_nat k" "b + of_nat k \<noteq> 0" "b + of_nat k \<noteq> 1"
proof -
  have "maskoff_pointer (b + of_nat k) = b"
    using assms(1) of_nat_le_127[OF assms(3)] by (rule maskoff_aligned_add)
  moreover have "b \<noteq> 0" using assms(2) by auto
  ultimately have "maskoff_pointer (b + of_nat k) \<noteq> 0" by simp
  then have "b + of_nat k \<noteq> 0 \<and> b + of_nat k \<noteq> 1" using maskoff_sentinels by metis
  then show "b + of_nat k \<noteq> 0" "b + of_nat k \<noteq> 1" by simp_all
  then show "1 < b + of_nat k" by unat_arith
qed

lemma register_steps:
  assumes al: "(b::uintptr) AND mask 7 = 0" and ge: "128 \<le> unat b" and k: "k < 127"
    and st: "my_state s = b + of_nat k"
    and fresh: "pc (threads s t) = Start" "\<not> ub (threads s t)"
  shows "my_state (run e [t, t, t, t] s) = b + of_nat (Suc k)"
    and "pc (threads (run e [t, t, t, t] s) t) = Wait_init"
    and "runner (threads (run e [t, t, t, t] s) t) = b"
proof -
  define v where "v = b + of_nat k"
  have v: "1 < v" "v \<noteq> 0" "v \<noteq> 1"
    using tagged_above_done[OF al ge, of k] k by (simp_all add: v_def)
  have sat: "v OR (max_nfs_size - 1) \<noteq> v"
  proof -
    have "v OR mask 7 = b + mask 7"
      unfolding v_def using al of_nat_le_127[of k] k by (intro saturated_aligned_add) simp_all
    moreover have "b + mask 7 \<noteq> b + of_nat k" using of_nat_neq_127[OF k] by (simp add: mask7_numeral)
    ultimately show ?thesis by (simp add: mask7 v_def)
  qed
  have dec: "maskoff_pointer v = b" "b \<noteq> 0"
    using maskoff_aligned_add[OF al of_nat_le_127[of k]] k ge by (auto simp: v_def)
  define s1 where "s1 = step e t s"
  define s2 where "s2 = step e t s1"
  define s3 where "s3 = step e t s2"
  define s4 where "s4 = step e t s3"
  have s1: "my_state s1 = v" "pc (threads s1 t) = Loop" "expected (threads s1 t) = v" "\<not> ub (threads s1 t)"
    using fresh st by (simp_all add: s1_def step_unfold v_def)
  have s2: "my_state s2 = v" "pc (threads s2 t) = Spin_max" "expected (threads s2 t) = v" "\<not> ub (threads s2 t)"
    using s1 v by (simp_all add: s2_def step_unfold)
  have s3: "my_state s3 = v" "pc (threads s3 t) = Reg_cas" "expected (threads s3 t) = v" "\<not> ub (threads s3 t)"
    using s2 sat by (simp_all add: s3_def step_def spin_wait_while_eq_def upd_thread_def eq_commute[of v])
  have s4: "my_state s4 = v + 1" "pc (threads s4 t) = Wait_init" "runner (threads s4 t) = b"
    using s3 v dec by (simp_all add: s4_def step_unfold)
  have r: "run e [t, t, t, t] s = s4" by (simp add: s4_def s3_def s2_def s1_def)
  show "my_state (run e [t, t, t, t] s) = b + of_nat (Suc k)"
    and "pc (threads (run e [t, t, t, t] s) t) = Wait_init"
    and "runner (threads (run e [t, t, t, t] s) t) = b"
    unfolding r using s4 by (simp_all add: v_def)
qed

lemma run_frame: "u \<notin> set ts \<Longrightarrow> threads (run e ts s) u = threads s u"
  by (induction ts arbitrary: s) (simp_all add: step_frame)

lemma register_many:
  assumes al: "(b::uintptr) AND mask 7 = 0" and ge: "128 \<le> unat b"
  shows "distinct ts \<Longrightarrow> k + length ts \<le> 127 \<Longrightarrow> my_state s = b + of_nat k \<Longrightarrow>
         \<forall>t\<in>set ts. pc (threads s t) = Start \<and> \<not> ub (threads s t) \<Longrightarrow>
         my_state (run e (concat (map (\<lambda>t. [t, t, t, t]) ts)) s) = b + of_nat (k + length ts)"
proof (induction ts arbitrary: s k)
  case Nil
  then show ?case by simp
next
  case (Cons t ts)
  let ?s' = "run e [t, t, t, t] s"
  have k: "k < 127" using Cons.prems(2) by simp
  have fresh: "pc (threads s t) = Start" "\<not> ub (threads s t)" using Cons.prems(4) by simp_all
  have st': "my_state ?s' = b + of_nat (Suc k)"
    using register_steps(1)[OF al ge k Cons.prems(3) fresh] .
  have others: "\<forall>u\<in>set ts. pc (threads ?s' u) = Start \<and> \<not> ub (threads ?s' u)"
  proof
    fix u assume u: "u \<in> set ts"
    then have "u \<notin> set [t, t, t, t]" using Cons.prems(1) by auto
    then have "threads ?s' u = threads s u" by (rule run_frame)
    then show "pc (threads ?s' u) = Start \<and> \<not> ub (threads ?s' u)" using Cons.prems(4) u by simp
  qed
  have "my_state (run e (concat (map (\<lambda>t. [t, t, t, t]) ts)) ?s') = b + of_nat (Suc k + length ts)"
    using Cons.prems(1,2) by (intro Cons.IH[OF _ _ st' others]) simp_all
  moreover have "run e (concat (map (\<lambda>t. [t, t, t, t]) (t # ts))) s =
      run e (concat (map (\<lambda>t. [t, t, t, t]) ts)) ?s'"
    by simp
  ultimately show ?case by simp
qed

lemma wf_many_calls: "wf_env many_calls"
  by (rule wf_env_nth_runner) (simp_all add: many_calls_def)

lemma set_registrations: "set (concat (map (\<lambda>t. [t, t, t, t]) ts)) = set ts"
  by (induction ts) auto

lemma saturated_state_reachable: "reachable many_calls saturated_state"
  unfolding saturated_state_def saturating_schedule_def
  by (rule run_reachable[OF reachable_init]) (auto simp: many_calls_def set_registrations)

lemma overflow_state_reachable: "reachable many_calls overflow_state"
  unfolding overflow_state_def
  by (rule run_reachable[OF saturated_state_reachable]) (simp add: many_calls_def)

lemma second_attempt_facts:
  defines "s \<equiv> run many_calls [0, 0, 1, 0, 0, 0, 0, 0, 2, 2] init_config"
  shows "my_state s = 384" "pc (threads s 2) = Make_runner"
    "pc (threads s 1) = Loop" "expected (threads s 1) = 128" "\<not> ub (threads s 1)"
    "pc (threads s 0) = Dtor (Exit_exception (Exn 7))"
  by (simp_all add: s_def many_calls_def eval_unfold)

lemma saturated_state_facts:
  "my_state saturated_state = 511"
  "pc (threads saturated_state 2) = Make_runner"
  "pc (threads saturated_state 1) = Loop"
  "expected (threads saturated_state 1) = 128"
  "\<not> ub (threads saturated_state 1)"
proof -
  define s where "s = run many_calls [0, 0, 1, 0, 0, 0, 0, 0, 2, 2] init_config"
  let ?regs = "concat (map (\<lambda>t. [t, t, t, t]) [3..<130])"
  have sat: "saturated_state = run many_calls ?regs s"
    by (simp only: saturated_state_def saturating_schedule_def run_append s_def)
  have fresh: "\<forall>t\<in>set [3..<130]. pc (threads s t) = Start \<and> \<not> ub (threads s t)"
  proof
    fix t assume "t \<in> set [3..<130]"
    then have "t \<notin> set [0, 0, 1, 0, 0, 0, 0, 0, 2, 2]" by auto
    then have "threads s t = threads init_config t" unfolding s_def by (rule run_frame)
    then show "pc (threads s t) = Start \<and> \<not> ub (threads s t)"
      by (simp add: init_config_def init_thread_def)
  qed
  have al: "(384::uintptr) AND mask 7 = 0" using nth_runner_aligned[of 2] by (simp add: nth_runner_def)
  have ge: "128 \<le> unat (384::uintptr)" by simp
  have st: "my_state s = 384 + of_nat 0" using second_attempt_facts(1) by (simp add: s_def)
  have "my_state (run many_calls ?regs s) = 384 + of_nat (0 + length [3..<130])"
    by (rule register_many[OF al ge _ _ st fresh]) simp_all
  then show "my_state saturated_state = 511" by (simp add: sat)
  have keep: "threads saturated_state u = threads s u" if "u < 3" for u
    unfolding sat using that by (intro run_frame) (simp add: set_registrations)
  show "pc (threads saturated_state 2) = Make_runner"
    "pc (threads saturated_state 1) = Loop"
    "expected (threads saturated_state 1) = 128"
    "\<not> ub (threads saturated_state 1)"
    using second_attempt_facts by (simp_all add: keep s_def)
qed

lemma resumed_facts:
  "pc (threads (run many_calls [1, 1] saturated_state) 1) = Reg_cas"
  "expected (threads (run many_calls [1, 1] saturated_state) 1) = 511"
  "my_state (run many_calls [1, 1] saturated_state) = 511"
  "\<not> ub (threads (run many_calls [1, 1] saturated_state) 1)"
proof -
  define s1 where "s1 = step many_calls 1 saturated_state"
  define s2 where "s2 = step many_calls 1 s1"
  note f = saturated_state_facts
  have s1: "my_state s1 = 511" "pc (threads s1 1) = Spin_max" "expected (threads s1 1) = 128"
    "\<not> ub (threads s1 1)"
    using f by (simp_all add: s1_def step_unfold)
  have s2: "my_state s2 = 511" "pc (threads s2 1) = Reg_cas" "expected (threads s2 1) = 511"
    "\<not> ub (threads s2 1)"
    using s1 by (simp_all add: s2_def step_unfold max_nfs_size_def bit_count_def)
  have r: "run many_calls [1, 1] saturated_state = s2" by (simp add: s2_def s1_def)
  show "pc (threads (run many_calls [1, 1] saturated_state) 1) = Reg_cas"
    "expected (threads (run many_calls [1, 1] saturated_state) 1) = 511"
    "my_state (run many_calls [1, 1] saturated_state) = 511"
    "\<not> ub (threads (run many_calls [1, 1] saturated_state) 1)"
    unfolding r using s2 by simp_all
qed

lemma overflow_state_facts:
  "my_state overflow_state = 512"
  "pc (threads overflow_state 1) = Wait_init"
  "runner (threads overflow_state 1) = 384"
  "pc (threads overflow_state 2) = Make_runner"
proof -
  define s2 where "s2 = run many_calls [1, 1] saturated_state"
  have r: "overflow_state = step many_calls 1 s2"
    by (simp add: overflow_state_def s2_def)
  have s2: "pc (threads s2 1) = Reg_cas" "expected (threads s2 1) = 511" "my_state s2 = 511"
    "\<not> ub (threads s2 1)"
    using resumed_facts by (simp_all add: s2_def)
  show "my_state overflow_state = 512" "pc (threads overflow_state 1) = Wait_init"
    "runner (threads overflow_state 1) = 384"
    unfolding r using s2 by (simp_all add: step_unfold maskoff_eval)
  have "threads overflow_state 2 = threads saturated_state 2"
    unfolding overflow_state_def by (rule run_frame) simp
  then show "pc (threads overflow_state 2) = Make_runner" using saturated_state_facts(2) by simp
qed

lemma many_calls_runners:
  "local_runner many_calls 0 = 128" "local_runner many_calls 2 = 384"
  by (simp_all add: many_calls_def nth_runner_def)

lemma overflow_registered: "card (registered many_calls overflow_state) = 128"
proof -
  let ?R = "registered many_calls overflow_state"
  have inv: "inv_flag many_calls overflow_state"
    using overflow_state_reachable wf_many_calls by (rule reachable_inv_flag)
  have "2 \<in> winners many_calls overflow_state"
    using overflow_state_facts(4) by (simp add: winners_def many_calls_def)
  then have "my_state overflow_state = local_runner many_calls 2 + of_nat (card ?R)"
    using inv by (simp add: inv_flag_def)
  then have "(512::uintptr) = 384 + of_nat (card ?R)"
    by (simp add: overflow_state_facts(1) many_calls_def nth_runner_def)
  then have "of_nat (card ?R) = (512::uintptr) - 384" by (simp only: add_diff_cancel_left')
  then have w: "(of_nat (card ?R) :: uintptr) = 128" by simp
  have "card ?R \<le> 130" using card_registered_le[of many_calls overflow_state] by (simp add: many_calls_def)
  then have "card ?R < 2 ^ LENGTH(64)" by simp
  then have "card ?R mod 2 ^ LENGTH(64) = card ?R" by simp
  then have "unat (of_nat (card ?R) :: uintptr) = card ?R" unfolding unat_of_nat .
  then show ?thesis using w by simp
qed

lemma overflow_winner: "winners many_calls overflow_state = {2}"
proof -
  have inv: "inv_flag many_calls overflow_state"
    using overflow_state_reachable wf_many_calls by (rule reachable_inv_flag)
  have "2 \<in> winners many_calls overflow_state"
    using overflow_state_facts(4) by (simp add: winners_def many_calls_def)
  then show ?thesis using inv by (simp add: inv_flag_def)
qed

subsection \<open>A call that registers after the overflow\<close>

text \<open>
  A runner is alive only at an address at which some call constructed it.  After the
  overflow a fresh call registers like any other, and decodes the flag word it read.
\<close>

lemma register_steps_ub:
  assumes al: "(b::uintptr) AND mask 7 = 0" and ge: "128 \<le> unat b" and k: "k < 127"
    and st: "my_state s = b + of_nat k"
    and fresh: "pc (threads s t) = Start" "\<not> ub (threads s t)"
  shows "\<not> ub (threads (run e [t, t, t, t] s) t)"
proof -
  define v where "v = b + of_nat k"
  have v: "1 < v" "v \<noteq> 0" "v \<noteq> 1"
    using tagged_above_done[OF al ge, of k] k by (simp_all add: v_def)
  have sat: "v OR (max_nfs_size - 1) \<noteq> v"
  proof -
    have "v OR mask 7 = b + mask 7"
      unfolding v_def using al of_nat_le_127[of k] k by (intro saturated_aligned_add) simp_all
    moreover have "b + mask 7 \<noteq> b + of_nat k" using of_nat_neq_127[OF k] by (simp add: mask7_numeral)
    ultimately show ?thesis by (simp add: mask7 v_def)
  qed
  have dec: "maskoff_pointer v = b" "b \<noteq> 0"
    using maskoff_aligned_add[OF al of_nat_le_127[of k]] k ge by (auto simp: v_def)
  define s1 where "s1 = step e t s"
  define s2 where "s2 = step e t s1"
  define s3 where "s3 = step e t s2"
  define s4 where "s4 = step e t s3"
  have s1: "my_state s1 = v" "pc (threads s1 t) = Loop" "expected (threads s1 t) = v" "\<not> ub (threads s1 t)"
    using fresh st by (simp_all add: s1_def step_unfold v_def)
  have s2: "my_state s2 = v" "pc (threads s2 t) = Spin_max" "expected (threads s2 t) = v" "\<not> ub (threads s2 t)"
    using s1 v by (simp_all add: s2_def step_unfold)
  have s3: "my_state s3 = v" "pc (threads s3 t) = Reg_cas" "expected (threads s3 t) = v" "\<not> ub (threads s3 t)"
    using s2 sat by (simp_all add: s3_def step_def spin_wait_while_eq_def upd_thread_def eq_commute[of v])
  have s4: "\<not> ub (threads s4 t)"
    using s3 v dec by (simp_all add: s4_def step_unfold)
  have r: "run e [t, t, t, t] s = s4" by (simp add: s4_def s3_def s2_def s1_def)
  show ?thesis unfolding r using s4 .
qed

lemma live_step: "live (heap (step e t s) a) \<Longrightarrow> live (heap s a) \<or> a = local_runner e t"
  by (simp add: step_live split: ref_move.splits if_splits)

lemma live_run: "live (heap (run e ts s) a) \<Longrightarrow> live (heap s a) \<or> a \<in> local_runner e ` set ts"
proof (induction ts arbitrary: s)
  case Nil
  then show ?case by simp
next
  case (Cons t ts)
  then have "live (heap (step e t s) a) \<or> a \<in> local_runner e ` set ts" by simp
  then show ?case using live_step[of e t s a] by auto
qed

lemma wide_runner_aligned: "wide_runner t AND mask 7 = 0"
proof -
  have "wide_runner t = push_bit 7 (of_nat (2 * (t + 1)))"
    by (simp add: wide_runner_def push_bit_eq_mult)
  then show ?thesis by (simp add: bit_eq_iff bit_simps)
qed

lemma wide_runner_unat: "t < 1000000 \<Longrightarrow> unat (wide_runner t) = 256 * (t + 1)"
proof -
  assume t: "t < 1000000"
  then have "256 * (t + 1) < (2::nat) ^ 64" by simp
  then have "256 * (t + 1) mod 2 ^ LENGTH(64) = 256 * (t + 1)" by simp
  then show ?thesis unfolding wide_runner_def unat_of_nat .
qed

lemma wf_wide_calls: "wf_env wide_calls"
proof -
  have u: "unat (wide_runner t) = 256 * (t + 1)" if "t < 131" for t
    using that by (intro wide_runner_unat) simp
  have nz: "wide_runner t \<noteq> 0" if "t < 131" for t
  proof
    assume "wide_runner t = 0"
    then have "unat (wide_runner t) = 0" by simp
    then show False using u[OF that] by simp
  qed
  have bound: "unat (wide_runner t) + 131 < 2 ^ 64" if "t < 131" for t
  proof -
    have "256 * (t + 1) + 131 < (100000::nat)" using that by simp
    moreover have "(100000::nat) < 2 ^ 64" by simp
    ultimately have "256 * (t + 1) + 131 < (2::nat) ^ 64" by (rule less_trans)
    then show ?thesis by (simp only: u[OF that])
  qed
  have "inj_on wide_runner {..<131}"
  proof (rule inj_onI)
    fix a b assume a: "a \<in> {..<131::nat}" and b: "b \<in> {..<131::nat}"
      and eq: "wide_runner a = wide_runner b"
    have ua: "unat (wide_runner a) = 256 * (a + 1)" using a by (intro u) simp
    have ub: "unat (wide_runner b) = 256 * (b + 1)" using b by (intro u) simp
    have "unat (wide_runner a) = unat (wide_runner b)" using eq by (rule arg_cong)
    then have "256 * (a + 1) = 256 * (b + 1)" by (simp only: ua ub)
    then show "a = b" by simp
  qed
  then show ?thesis
    using nz bound by (simp add: wf_env_def wide_calls_def mask7 wide_runner_aligned)
qed

lemma wide_calls_runners:
  "local_runner wide_calls 0 = 256" "local_runner wide_calls 2 = 768"
  by (simp_all add: wide_calls_def wide_runner_def)

lemma stray_state_reachable: "reachable wide_calls stray_state"
  unfolding stray_state_def saturating_schedule_def
  by (rule run_reachable[OF reachable_init]) (auto simp: wide_calls_def set_registrations)

lemma wide_second_attempt_facts:
  defines "s \<equiv> run wide_calls [0, 0, 1, 0, 0, 0, 0, 0, 2, 2] init_config"
  shows "my_state s = 768" "pc (threads s 2) = Make_runner"
    "pc (threads s 1) = Loop" "expected (threads s 1) = 256" "\<not> ub (threads s 1)"
  by (simp_all add: s_def wide_calls_def wide_runner_def eval_unfold)

lemma wide_saturated_facts:
  defines "s \<equiv> run wide_calls saturating_schedule init_config"
  shows "my_state s = 895"
  "pc (threads s 2) = Make_runner"
  "pc (threads s 1) = Loop"
  "expected (threads s 1) = 256"
  "\<not> ub (threads s 1)"
  "pc (threads s 130) = Start"
  "\<not> ub (threads s 130)"
proof -
  define s0 where "s0 = run wide_calls [0, 0, 1, 0, 0, 0, 0, 0, 2, 2] init_config"
  let ?regs = "concat (map (\<lambda>t. [t, t, t, t]) [3..<130])"
  have sat: "s = run wide_calls ?regs s0"
    by (simp only: s_def saturating_schedule_def run_append s0_def)
  have fresh: "\<forall>t\<in>set [3..<130]. pc (threads s0 t) = Start \<and> \<not> ub (threads s0 t)"
  proof
    fix t assume "t \<in> set [3..<130]"
    then have "t \<notin> set [0, 0, 1, 0, 0, 0, 0, 0, 2, 2]" by auto
    then have "threads s0 t = threads init_config t" unfolding s0_def by (rule run_frame)
    then show "pc (threads s0 t) = Start \<and> \<not> ub (threads s0 t)"
      by (simp add: init_config_def init_thread_def)
  qed
  have al: "(768::uintptr) AND mask 7 = 0" using wide_runner_aligned[of 2] by (simp add: wide_runner_def)
  have ge: "128 \<le> unat (768::uintptr)" by simp
  have st: "my_state s0 = 768 + of_nat 0" using wide_second_attempt_facts(1) by (simp add: s0_def)
  have "my_state (run wide_calls ?regs s0) = 768 + of_nat (0 + length [3..<130])"
    by (rule register_many[OF al ge _ _ st fresh]) simp_all
  then show "my_state s = 895" by (simp add: sat)
  have keep: "threads s u = threads s0 u" if "u < 3" for u
    unfolding sat using that by (intro run_frame) (simp add: set_registrations)
  show "pc (threads s 2) = Make_runner"
    "pc (threads s 1) = Loop"
    "expected (threads s 1) = 256"
    "\<not> ub (threads s 1)"
    using wide_second_attempt_facts by (simp_all add: keep s0_def)
  have "130 \<notin> set saturating_schedule"
    by (simp add: saturating_schedule_def set_registrations)
  then have "threads s 130 = threads init_config 130" unfolding s_def by (rule run_frame)
  then show "pc (threads s 130) = Start" "\<not> ub (threads s 130)"
    by (simp_all add: init_config_def init_thread_def)
qed

lemma wide_overflow_facts:
  defines "s \<equiv> run wide_calls (saturating_schedule @ [1, 1, 1]) init_config"
  shows "my_state s = 896"
  "pc (threads s 2) = Make_runner"
  "pc (threads s 130) = Start"
  "\<not> ub (threads s 130)"
proof -
  define s0 where "s0 = run wide_calls saturating_schedule init_config"
  define s1 where "s1 = step wide_calls 1 s0"
  define s2 where "s2 = step wide_calls 1 s1"
  define s3 where "s3 = step wide_calls 1 s2"
  have f: "my_state s0 = 895" "pc (threads s0 1) = Loop" "expected (threads s0 1) = 256"
    "\<not> ub (threads s0 1)"
    using wide_saturated_facts by (simp_all add: s0_def)
  have s1: "my_state s1 = 895" "pc (threads s1 1) = Spin_max" "expected (threads s1 1) = 256"
    "\<not> ub (threads s1 1)"
    using f by (simp_all add: s1_def step_unfold)
  have s2: "my_state s2 = 895" "pc (threads s2 1) = Reg_cas" "expected (threads s2 1) = 895"
    "\<not> ub (threads s2 1)"
    using s1 by (simp_all add: s2_def step_unfold max_nfs_size_def bit_count_def)
  have s3: "my_state s3 = 896"
    using s2 by (simp_all add: s3_def step_unfold maskoff_eval)
  have r: "s = s3" by (simp add: s_def run_append s3_def s2_def s1_def s0_def)
  show "my_state s = 896" unfolding r using s3 .
  have k: "threads s u = threads s0 u" if "u \<noteq> 1" for u
  proof -
    have eq: "s = run wide_calls [1, 1, 1] s0" by (simp add: s_def run_append s0_def)
    have "u \<notin> set [1, 1, 1::nat]" using that by simp
    then show ?thesis unfolding eq by (rule run_frame)
  qed
  show "pc (threads s 2) = Make_runner" "pc (threads s 130) = Start" "\<not> ub (threads s 130)"
    using wide_saturated_facts by (simp_all add: k s0_def)
qed

lemma stray_state_facts:
  "my_state stray_state = 897"
  "pc (threads stray_state 130) = Wait_init"
  "runner (threads stray_state 130) = 896"
  "\<not> ub (threads stray_state 130)"
  "pc (threads stray_state 2) = Make_runner"
proof -
  define s where "s = run wide_calls (saturating_schedule @ [1, 1, 1]) init_config"
  have r: "stray_state = run wide_calls [130, 130, 130, 130] s"
    by (simp only: stray_state_def s_def run_append append_assoc[symmetric])
  have al: "(896::uintptr) AND mask 7 = 0"
    using nth_runner_aligned[of 6] by (simp add: nth_runner_def)
  have ge: "128 \<le> unat (896::uintptr)" by simp
  have k: "(0::nat) < 127" by simp
  have st: "my_state s = 896 + of_nat 0" using wide_overflow_facts(1) by (simp add: s_def)
  have fresh: "pc (threads s 130) = Start" "\<not> ub (threads s 130)"
    using wide_overflow_facts(3,4) by (simp_all add: s_def)
  show "my_state stray_state = 897"
    unfolding r using register_steps(1)[OF al ge k st fresh, of wide_calls] by simp
  show "pc (threads stray_state 130) = Wait_init"
    unfolding r using register_steps(2)[OF al ge k st fresh, of wide_calls] .
  show "runner (threads stray_state 130) = 896"
    unfolding r using register_steps(3)[OF al ge k st fresh, of wide_calls] .
  show "\<not> ub (threads stray_state 130)"
    unfolding r using register_steps_ub[OF al ge k st fresh, of wide_calls] .
  have "threads stray_state 2 = threads s 2"
    unfolding r by (rule run_frame) simp
  then show "pc (threads stray_state 2) = Make_runner" using wide_overflow_facts(2) by (simp add: s_def)
qed

lemma stray_winner: "winners wide_calls stray_state = {2}"
proof -
  have inv: "inv_flag wide_calls stray_state"
    using stray_state_reachable wf_wide_calls by (rule reachable_inv_flag)
  have "2 \<in> winners wide_calls stray_state"
    using stray_state_facts(5) by (simp add: winners_def wide_calls_def)
  then show ?thesis using inv by (simp add: inv_flag_def)
qed

lemma stray_address_dead: "\<not> live (heap stray_state 896)"
proof
  assume "live (heap stray_state 896)"
  then have "live (heap init_config 896) \<or>
      896 \<in> local_runner wide_calls ` set (saturating_schedule @ [1, 1, 1] @ [130, 130, 130, 130])"
    unfolding stray_state_def by (rule live_run)
  moreover have "\<not> live (heap init_config 896)" by (simp add: init_config_def)
  ultimately obtain u
    where in_sched: "u \<in> set (saturating_schedule @ [1, 1, 1] @ [130, 130, 130, 130])"
      and eq': "896 = local_runner wide_calls u"
    by blast
  have "set (saturating_schedule @ [1, 1, 1] @ [130, 130, 130, 130]) \<subseteq> {..<131}"
    by (auto simp: saturating_schedule_def set_registrations)
  then have u: "u < 131" using in_sched by blast
  have eq: "wide_runner u = 896" using eq' by (simp add: wide_calls_def)
  have "unat (wide_runner u) = 256 * (u + 1)" using u by (intro wide_runner_unat) simp
  then have "256 * (u + 1) = (896::nat)" using eq by simp
  then show False by presburger
qed

lemma stray_winner_alive: "live (heap stray_state (local_runner wide_calls 2))"
proof -
  have "own_ok (fn wide_calls 2) (pc (threads stray_state 2)) (heap stray_state (local_runner wide_calls 2))"
    by (rule own_ok_at[OF wf_wide_calls stray_state_reachable]) (simp add: wide_calls_def)
  then show ?thesis by (simp add: stray_state_facts(5) unbuilt_def)
qed

section \<open>The transitions of the flag word\<close>

text \<open>
  In every reachable configuration a step either leaves the flag word alone or makes
  one of five moves: the winner's compare-and-swap from \<open>uninitialized\<close> to the bare
  address of its runner; a registration, which adds one; a \<^verbatim>\<open>fetch_sub\<close>, which takes
  one off; and the winner's compare-and-swap from the bare address of its runner, with
  no call registered, to \<open>done\<close> or back to \<open>uninitialized\<close>.  A flag word that is
  \<open>done\<close> stays \<open>done\<close>.
\<close>

lemma flag_word_transitions:
  assumes wf: "wf_env e" and reach: "reachable e s" and t: "t < ncalls e"
  shows
    "(my_state s = state_done \<longrightarrow> my_state (step e t s) = state_done) \<and>
     (my_state (step e t s) \<noteq> my_state s \<longrightarrow>
        (my_state s = state_uninitialized \<and> my_state (step e t s) = local_runner e t \<and>
           pc (threads s t) = Loop \<and> pc (threads (step e t s) t) = Make_runner) \<or>
        (\<exists>w<ncalls e. winners e s = {w} \<and> pc (threads s t) = Reg_cas \<and>
           my_state s = local_runner e w + of_nat (card (registered e s)) \<and>
           my_state (step e t s) = local_runner e w + of_nat (Suc (card (registered e s))) \<and>
           registered e (step e t s) = insert t (registered e s) \<and> t \<notin> registered e s) \<or>
        (\<exists>w<ncalls e. winners e s = {w} \<and> pc (threads s t) = Fetch_sub \<and>
           my_state s = local_runner e w + of_nat (Suc (card (registered e (step e t s)))) \<and>
           my_state (step e t s) = local_runner e w + of_nat (card (registered e (step e t s))) \<and>
           registered e (step e t s) = registered e s - {t} \<and> t \<in> registered e s) \<or>
        (my_state s = local_runner e t \<and> registered e s = {} \<and> pc (threads s t) = Done_cas \<and>
           my_state (step e t s) = state_done) \<or>
        (my_state s = local_runner e t \<and> registered e s = {} \<and>
           (\<exists>x. pc (threads s t) = Reset_cas x) \<and> my_state (step e t s) = state_uninitialized))"
proof (intro conjI impI)
  have inv: "inv_flag e s" using reach wf by (rule reachable_inv_flag)
  have inv': "inv_flag e (step e t s)" using wf inv t by (rule inv_flag_step)
  let ?R = "registered e s" and ?R' = "registered e (step e t s)"
  {
    assume "my_state s = state_done"
    then show "my_state (step e t s) = state_done" by (rule done_absorbing[OF wf inv t])
  }
  assume ch: "my_state (step e t s) \<noteq> my_state s"
  have armed: "armed_pc (pc (threads s t)) \<Longrightarrow> local_expected (threads s t) = local_runner e t"
    using inv t by (simp add: inv_flag_def)
  have bare: "my_state s = local_runner e t \<Longrightarrow> t \<in> winners e s \<Longrightarrow> ?R = {}"
  proof -
    assume a: "my_state s = local_runner e t" and b: "t \<in> winners e s"
    from b have "my_state s = local_runner e t + of_nat (card ?R)" using inv by (simp add: inv_flag_def)
    with a have "local_runner e t + of_nat (card ?R) = local_runner e t" by metis
    then have "card ?R = 0" by (rule active_word_bare[OF wf t card_registered_le[of e s]])
    then show "?R = {}" by (simp add: finite_registered)
  qed
  show "(my_state s = state_uninitialized \<and> my_state (step e t s) = local_runner e t \<and>
           pc (threads s t) = Loop \<and> pc (threads (step e t s) t) = Make_runner) \<or>
        (\<exists>w<ncalls e. winners e s = {w} \<and> pc (threads s t) = Reg_cas \<and>
           my_state s = local_runner e w + of_nat (card ?R) \<and>
           my_state (step e t s) = local_runner e w + of_nat (Suc (card ?R)) \<and>
           ?R' = insert t ?R \<and> t \<notin> ?R) \<or>
        (\<exists>w<ncalls e. winners e s = {w} \<and> pc (threads s t) = Fetch_sub \<and>
           my_state s = local_runner e w + of_nat (Suc (card ?R')) \<and>
           my_state (step e t s) = local_runner e w + of_nat (card ?R') \<and>
           ?R' = ?R - {t} \<and> t \<in> ?R) \<or>
        (my_state s = local_runner e t \<and> ?R = {} \<and> pc (threads s t) = Done_cas \<and>
           my_state (step e t s) = state_done) \<or>
        (my_state s = local_runner e t \<and> ?R = {} \<and>
           (\<exists>x. pc (threads s t) = Reset_cas x) \<and> my_state (step e t s) = state_uninitialized)"
  proof (cases "flag_move_of e t s")
    case Stutter
    then show ?thesis using ch by (simp add: step_my_state)
  next
    case Win
    then have "pc (threads s t) = Loop" "my_state s = state_uninitialized"
      using flag_move_Win[of e t s] by simp_all
    moreover have "my_state (step e t s) = local_runner e t" using Win by (simp add: step_my_state)
    moreover have "pc (threads (step e t s) t) = Make_runner"
      using Win
      by (cases "pc (threads s t)")
         (auto simp: step_unfold flag_move_of_def split: if_splits)
    ultimately show ?thesis by simp
  next
    case Register
    then have pc: "pc (threads s t) = Reg_cas" and st: "state_done < my_state s"
      using flag_move_Register[of e t s] by simp_all
    have "my_state s \<noteq> 0" "my_state s \<noteq> 1" using st by (auto simp: state_done_def)
    then obtain w where w: "w < ncalls e" "winners e s = {w}"
      "my_state s = local_runner e w + of_nat (card ?R)"
      using flag_idle_or_active[OF inv] by auto
    have "maskoff_pointer (my_state s) \<noteq> 0"
      using active_word_ge[OF wf w(1) card_registered_le[of e s]] w(3) by (simp add: maskoff_nonzero)
    then have R': "?R' = insert t ?R" using Register by (simp add: registered_step_cases[OF t])
    have "t \<notin> ?R" using pc by (simp add: registered_def)
    moreover have "my_state (step e t s) = local_runner e w + of_nat (Suc (card ?R))"
      using Register w(3) by (simp add: step_my_state)
    ultimately show ?thesis using w pc R' by blast
  next
    case Deregister
    then have pc: "pc (threads s t) = Fetch_sub" by (rule flag_move_Deregister)
    then have tR: "t \<in> ?R" using t by (simp add: registered_def)
    then obtain w where w: "w < ncalls e" "winners e s = {w}"
      "my_state s = local_runner e w + of_nat (card ?R)"
      using flag_idle_or_active[OF inv] by auto
    have R': "?R' = ?R - {t}" using Deregister by (simp add: registered_step_cases[OF t])
    have "card ?R = Suc (card (?R - {t}))" using finite_registered tR by (rule card.remove)
    then have c: "card ?R = Suc (card ?R')" by (simp only: R')
    have a: "my_state s = local_runner e w + of_nat (Suc (card ?R'))" using w(3) by (simp only: c)
    have "my_state (step e t s) = my_state s - 1" using Deregister by (simp add: step_my_state)
    then have b: "my_state (step e t s) = local_runner e w + of_nat (card ?R')"
      by (simp only: a of_nat_Suc) simp
    show ?thesis using w(1,2) pc a b R' tR by blast
  next
    case Publish_done
    then have pc: "pc (threads s t) = Done_cas" and st: "my_state s = local_expected (threads s t)"
      using flag_move_Publish_done[of e t s] by simp_all
    have a: "my_state s = local_runner e t" using st armed pc by simp
    have "t \<in> winners e s" using pc t by (simp add: winners_def)
    then have "?R = {}" using bare a by simp
    moreover have "my_state (step e t s) = state_done" using Publish_done by (simp add: step_my_state)
    ultimately show ?thesis using a pc by simp
  next
    case Reset
    then obtain x where pc: "pc (threads s t) = Reset_cas x"
      and st: "my_state s = local_expected (threads s t)"
      using flag_move_Reset[of e t s] by auto
    have a: "my_state s = local_runner e t" using st armed pc by simp
    have "t \<in> winners e s" using pc t by (simp add: winners_def)
    then have "?R = {}" using bare a by simp
    moreover have "my_state (step e t s) = state_uninitialized" using Reset by (simp add: step_my_state)
    ultimately show ?thesis using a pc by simp
  qed
qed

lemma flag_word_transitions_instance:
  "wf_env two_calls \<and> reachable two_calls assisting_state \<and> (1::nat) < ncalls two_calls \<and>
   my_state assisting_state = 129 \<and> my_state (step two_calls 1 assisting_state) = 128 \<and>
   winners two_calls assisting_state = {0} \<and> pc (threads assisting_state 1) = Fetch_sub"
proof -
  have lt: "(1::nat) < ncalls two_calls" by (simp add: two_calls_def)
  note f = assisting_state_facts
  have inv: "inv_flag two_calls assisting_state"
    using assisting_state_reachable wf_two_calls by (rule reachable_inv_flag)
  have "0 \<in> winners two_calls assisting_state" using f(2) by (simp add: winners_def two_calls_def)
  then have W: "winners two_calls assisting_state = {0}" using inv by (simp add: inv_flag_def)
  have "my_state (step two_calls 1 assisting_state) = 128"
    using f by (simp add: step_unfold)
  then show ?thesis
    using flag_word_transitions[OF wf_two_calls assisting_state_reachable lt]
      wf_two_calls assisting_state_reachable lt f W
    by simp
qed

section \<open>The admission count is capped when no functor raises\<close>

text \<open>
  When no functor raises, only one runner is ever published on the flag, the sentinel
  of line 168 is always the saturated word of that runner, and the admission count
  stays within \<open>0 .. 127\<close>: the flag word always decodes to the winner's runner.
\<close>

lemma step_expected:
  "expected (threads (step e t s) t) = expected (threads s t) \<or>
   expected (threads (step e t s) t) = my_state s"
  by (cases "pc (threads s t)")
     (auto simp: step_unfold runner_unfold split: storage.splits option.splits exit_path.splits if_splits)

lemma step_spin_entry:
  assumes "pc (threads (step e t s) t) = Spin_max"
  shows "expected (threads (step e t s) t) \<noteq> 0 \<or>
         (pc (threads s t) = Spin_max \<and> step e t s = s) \<or>
         (my_state s = 0 \<and> 1 < expected (threads s t))"
  using assms
  by (cases "pc (threads s t)")
     (auto simp: step_unfold runner_unfold split: storage.splits option.splits exit_path.splits if_splits)

lemma step_reg_entry:
  assumes "pc (threads (step e t s) t) = Reg_cas"
  shows "step e t s = s \<or>
         (pc (threads s t) = Spin_max \<and> expected (threads (step e t s) t) = my_state s \<and>
          my_state s \<noteq> (expected (threads s t) OR (max_nfs_size - 1)))"
  using assms
  by (cases "pc (threads s t)")
     (auto simp: step_unfold runner_unfold split: storage.splits option.splits exit_path.splits if_splits)

lemma no_reset_without_failure:
  assumes "no_failure e" "inv_own e s" "t < ncalls e"
  shows "flag_move_of e t s \<noteq> Reset"
proof
  assume "flag_move_of e t s = Reset"
  then obtain x where "pc (threads s t) = Reset_cas x" using flag_move_Reset[of e t s] by auto
  moreover have "own_ok (fn e t) (pc (threads s t)) (heap s (local_runner e t))"
    using assms(2,3) by (simp add: inv_own_def)
  ultimately have "raises (fn e t) = Some x" by simp
  then show False using assms(1,3) by (simp add: no_failure_def)
qed

lemma uninitialized_only_by_reset:
  assumes wf: "wf_env e" and inv: "inv_flag e s" and t: "t < ncalls e"
    and z: "my_state (step e t s) = 0" and nr: "flag_move_of e t s \<noteq> Reset"
  shows "my_state s = 0"
proof -
  have inv': "inv_flag e (step e t s)" using wf inv t by (rule inv_flag_step)
  have noW': "winners e (step e t s) = {}"
    using active_not_done(1)[OF wf inv'] z by auto
  show ?thesis
  proof (cases "flag_move_of e t s")
    case Stutter
    then show ?thesis using z by (simp add: step_my_state)
  next
    case Win
    then show ?thesis using noW' by (simp add: winners_step_cases[OF t])
  next
    case Register
    then have "1 < my_state s" using flag_move_Register[of e t s] by (simp add: state_done_def)
    then have "my_state s \<noteq> 0" "my_state s \<noteq> 1" by auto
    then have "winners e s \<noteq> {}" using flag_idle_or_active[OF inv] by auto
    then show ?thesis using noW' Register by (simp add: winners_step_cases[OF t])
  next
    case Deregister
    then have "t \<in> registered e s" using flag_move_Deregister[of e t s] t by (simp add: registered_def)
    then have "winners e s \<noteq> {}" using flag_idle_or_active[OF inv] by auto
    then show ?thesis using noW' Deregister by (simp add: winners_step_cases[OF t])
  next
    case Publish_done
    then show ?thesis using z by (simp add: step_my_state state_done_def)
  next
    case Reset
    then show ?thesis using nr by simp
  qed
qed

lemma flag_move_Register_expected:
  "flag_move_of e t s = Register \<Longrightarrow> my_state s = expected (threads s t)"
  by (auto simp: flag_move_of_def Let_def split: if_splits pc.splits)

lemma saturated_of_tagged:
  assumes wf: "wf_env e" and w: "w < ncalls e" and k: "k \<le> 127"
  shows "(local_runner e w + of_nat k) OR (max_nfs_size - 1) = local_runner e w + 127"
proof -
  have "(local_runner e w + of_nat k) OR mask 7 = local_runner e w + mask 7"
    using wf_envD(1)[OF wf w] of_nat_le_127[OF k] by (rule saturated_aligned_add)
  then show ?thesis by (simp only: mask7 mask7_numeral)
qed

lemma tagged_127_nonzero:
  assumes wf: "wf_env e" and w: "w < ncalls e"
  shows "local_runner e w + 127 \<noteq> 0"
  using tagged_above_done(2)[OF wf_envD(1)[OF wf w] wf_envD(4)[OF wf w], of 127] by simp

lemma inv_cap_init: "inv_cap e init_config"
  by (simp add: inv_cap_def init_config_def init_thread_def winners_def)

lemma inv_cap_step:
  assumes wf: "wf_env e" and nf: "no_failure e" and inv: "inv_flag e s" and own: "inv_own e s"
    and cap: "inv_cap e s" and t: "t < ncalls e"
  shows "inv_cap e (step e t s)"
proof -
  let ?s' = "step e t s"
  let ?R = "registered e s" and ?R' = "registered e (step e t s)"
  have nr: "flag_move_of e t s \<noteq> Reset" using nf own t by (rule no_reset_without_failure)
  have A: "my_state s = 0 \<Longrightarrow> u < ncalls e \<Longrightarrow> expected (threads s u) = 0" for u
    using cap by (simp add: inv_cap_def state_uninitialized_def)
  have C: "u < ncalls e \<Longrightarrow> pc (threads s u) = Spin_max \<Longrightarrow> expected (threads s u) \<noteq> 0" for u
    using cap by (simp add: inv_cap_def)
  have E: "w \<in> winners e s \<Longrightarrow> card ?R \<le> 127" for w
    using cap by (auto simp: inv_cap_def)
  have B: "w \<in> winners e s \<Longrightarrow> u < ncalls e \<Longrightarrow>
      expected (threads s u) = 0 \<or> (\<exists>k\<le>127. expected (threads s u) = local_runner e w + of_nat k)" for w u
    using cap unfolding inv_cap_def by blast
  have D: "w \<in> winners e s \<Longrightarrow> u < ncalls e \<Longrightarrow> pc (threads s u) = Reg_cas \<Longrightarrow>
      expected (threads s u) \<noteq> local_runner e w + 127" for w u
    using cap unfolding inv_cap_def by blast
  have fr: "u \<noteq> t \<Longrightarrow> threads ?s' u = threads s u" for u by (rule step_frame)
  have A': "my_state ?s' = state_uninitialized \<longrightarrow> (\<forall>u<ncalls e. expected (threads ?s' u) = 0)"
  proof (intro impI allI)
    fix u assume z: "my_state ?s' = state_uninitialized" and u: "u < ncalls e"
    have z0: "my_state s = 0"
      using uninitialized_only_by_reset[OF wf inv t _ nr] z by (simp add: state_uninitialized_def)
    show "expected (threads ?s' u) = 0"
    proof (cases "u = t")
      case True
      then show ?thesis using step_expected[of e t s] A[OF z0 t] z0 by auto
    next
      case False
      then show ?thesis using A[OF z0 u] by (simp add: fr)
    qed
  qed
  have C': "\<forall>u<ncalls e. pc (threads ?s' u) = Spin_max \<longrightarrow> expected (threads ?s' u) \<noteq> 0"
  proof (intro impI allI)
    fix u assume u: "u < ncalls e" and p: "pc (threads ?s' u) = Spin_max"
    show "expected (threads ?s' u) \<noteq> 0"
    proof (cases "u = t")
      case False
      then show ?thesis using C[OF u] p by (simp add: fr)
    next
      case True
      then have p': "pc (threads ?s' t) = Spin_max" using p by simp
      from step_spin_entry[OF p'] consider
        (nz) "expected (threads ?s' t) \<noteq> 0"
        | (same) "pc (threads s t) = Spin_max" "?s' = s"
        | (zero) "my_state s = 0" "1 < expected (threads s t)"
        by blast
      then show ?thesis
      proof cases
        case nz
        then show ?thesis using True by simp
      next
        case same
        then show ?thesis using C[OF t] True by simp
      next
        case zero
        then show ?thesis using A[OF zero(1) t] by simp
      qed
    qed
  qed
  have W': "card ?R' \<le> 127 \<and>
        (\<forall>u<ncalls e. expected (threads ?s' u) = 0 \<or>
           (\<exists>k\<le>127. expected (threads ?s' u) = local_runner e w + of_nat k)) \<and>
        (\<forall>u<ncalls e. pc (threads ?s' u) = Reg_cas \<longrightarrow>
           expected (threads ?s' u) \<noteq> local_runner e w + 127)"
    if w': "w \<in> winners e ?s'" for w
  proof (cases "flag_move_of e t s = Win")
    case True
    then have z0: "my_state s = 0" using flag_move_Win[of e t s] by (simp add: state_uninitialized_def)
    have idle: "winners e s = {}" "?R = {}"
      using flag_idle_or_active[OF inv] z0 active_word_not_sentinel(1)[OF wf _ card_registered_le[of e s]]
      by auto
    have wt: "w = t" using w' True idle by (simp add: winners_step_cases[OF t])
    have R': "?R' = {}" using True idle by (simp add: registered_step_cases[OF t])
    have ex0: "expected (threads ?s' u) = 0" if "u < ncalls e" for u
    proof (cases "u = t")
      case True
      then show ?thesis using step_expected[of e t s] A[OF z0 t] z0 by auto
    next
      case False
      then show ?thesis using A[OF z0 that] by (simp add: fr)
    qed
    have "local_runner e w + 127 \<noteq> 0" using tagged_127_nonzero[OF wf t] wt by simp
    then show ?thesis using ex0 R' by auto
  next
    case False
    have wW: "w \<in> winners e s"
      using w' False by (cases "flag_move_of e t s") (simp_all add: winners_step_cases[OF t])
    then have w: "w < ncalls e" by (simp add: winners_def)
    have st: "my_state s = local_runner e w + of_nat (card ?R)"
      using inv wW by (simp add: inv_flag_def)
    have E1: "card ?R' \<le> 127"
    proof (cases "flag_move_of e t s = Register")
      case True
      have "pc (threads s t) = Reg_cas" using flag_move_Register[OF True] by simp
      then have "expected (threads s t) \<noteq> local_runner e w + 127" using D[OF wW t] by simp
      then have "my_state s \<noteq> local_runner e w + 127"
        using flag_move_Register_expected[OF True] by simp
      then have "card ?R \<noteq> 127" using st by auto
      then have "card ?R \<le> 126" using E[OF wW] by simp
      moreover have "card ?R' \<le> Suc (card ?R)"
      proof -
        have "?R' \<subseteq> insert t ?R" using True by (auto simp: registered_step_cases[OF t])
        then have "card ?R' \<le> card (insert t ?R)" by (intro card_mono) (simp_all add: finite_registered)
        also have "\<dots> \<le> Suc (card ?R)" by (simp add: card_insert_if finite_registered)
        finally show ?thesis .
      qed
      ultimately show ?thesis by simp
    next
      case False
      then have "?R' \<subseteq> ?R"
        by (cases "flag_move_of e t s") (auto simp: registered_step_cases[OF t])
      then have "card ?R' \<le> card ?R" by (intro card_mono) (simp_all add: finite_registered)
      then show ?thesis using E[OF wW] by simp
    qed
    have B1: "expected (threads ?s' u) = 0 \<or>
        (\<exists>k\<le>127. expected (threads ?s' u) = local_runner e w + of_nat k)" if u: "u < ncalls e" for u
    proof (cases "u = t")
      case False
      then show ?thesis using B[OF wW u] by (simp add: fr)
    next
      case True
      from step_expected[of e t s] show ?thesis
      proof
        assume "expected (threads ?s' t) = expected (threads s t)"
        then show ?thesis using B[OF wW t] True by simp
      next
        assume "expected (threads ?s' t) = my_state s"
        then have "expected (threads ?s' u) = local_runner e w + of_nat (card ?R)"
          using st True by simp
        then show ?thesis using E[OF wW] by blast
      qed
    qed
    have D1: "expected (threads ?s' u) \<noteq> local_runner e w + 127"
      if u: "u < ncalls e" and p: "pc (threads ?s' u) = Reg_cas" for u
    proof (cases "u = t")
      case False
      then show ?thesis using D[OF wW u] p by (simp add: fr)
    next
      case True
      then have p': "pc (threads ?s' t) = Reg_cas" using p by simp
      from step_reg_entry[OF p'] show ?thesis
      proof
        assume "?s' = s"
        then show ?thesis using D[OF wW t] p True by simp
      next
        assume h: "pc (threads s t) = Spin_max \<and> expected (threads ?s' t) = my_state s \<and>
            my_state s \<noteq> (expected (threads s t) OR (max_nfs_size - 1))"
        then have "expected (threads s t) \<noteq> 0" using C[OF t] by simp
        then obtain k where k: "k \<le> 127" "expected (threads s t) = local_runner e w + of_nat k"
          using B[OF wW t] by auto
        have "expected (threads s t) OR (max_nfs_size - 1) = local_runner e w + 127"
          unfolding k(2) using wf w k(1) by (rule saturated_of_tagged)
        then have "my_state s \<noteq> local_runner e w + 127" using h by simp
        then show ?thesis using h True by simp
      qed
    qed
    show ?thesis using E1 B1 D1 by blast
  qed
  show ?thesis
    unfolding inv_cap_def using A' C' W' by blast
qed

lemma reachable_inv_cap:
  "reachable e s \<Longrightarrow> wf_env e \<Longrightarrow> no_failure e \<Longrightarrow> inv_cap e s"
  by (induction rule: reachable.induct)
     (simp_all add: inv_cap_init inv_cap_step reachable_inv_flag reachable_inv_own)

lemma admission_cap_without_failure:
  assumes wf: "wf_env e" and reach: "reachable e s" and nf: "no_failure e"
  shows "card (registered e s) \<le> 127 \<and>
         (\<forall>w\<in>winners e s.
            my_state s = local_runner e w + of_nat (card (registered e s)) \<and>
            maskoff_pointer (my_state s) = local_runner e w)"
proof -
  have inv: "inv_flag e s" using reach wf by (rule reachable_inv_flag)
  have cap: "inv_cap e s" using reach wf nf by (rule reachable_inv_cap)
  have c: "card (registered e s) \<le> 127"
  proof (cases "winners e s = {}")
    case True
    then have "registered e s = {}" using inv by (simp add: inv_flag_def)
    then show ?thesis by simp
  next
    case False
    then show ?thesis using cap by (auto simp: inv_cap_def)
  qed
  have "my_state s = local_runner e w + of_nat (card (registered e s)) \<and>
        maskoff_pointer (my_state s) = local_runner e w" if w: "w \<in> winners e s" for w
  proof -
    have lt: "w < ncalls e" using w by (simp add: winners_def)
    have st: "my_state s = local_runner e w + of_nat (card (registered e s))"
      using inv w by (simp add: inv_flag_def)
    have "maskoff_pointer (local_runner e w + of_nat (card (registered e s))) = local_runner e w"
      using wf_envD(1)[OF wf lt] of_nat_le_127[OF c] by (rule maskoff_aligned_add)
    then show ?thesis using st by simp
  qed
  then show ?thesis using c by blast
qed

lemma admission_cap_without_failure_instance:
  "wf_env two_calls \<and> reachable two_calls assisting_state \<and> no_failure two_calls \<and>
   card (registered two_calls assisting_state) \<le> 127"
proof -
  have nf: "no_failure two_calls" by (simp add: no_failure_def two_calls_def counting_def)
  show ?thesis
    using admission_cap_without_failure[OF wf_two_calls assisting_state_reachable nf]
      wf_two_calls assisting_state_reachable nf
    by simp
qed

lemma step_decoded:
  assumes "registered_pc (pc (threads s t)) \<longrightarrow>
        runner (threads s t) = maskoff_pointer (expected (threads s t)) \<and> runner (threads s t) \<noteq> 0"
    and "registered_pc (pc (threads (step e t s) t))"
  shows "runner (threads (step e t s) t) = maskoff_pointer (expected (threads (step e t s) t)) \<and>
         runner (threads (step e t s) t) \<noteq> 0"
  using assms
  by (cases "pc (threads s t)")
     (auto simp: step_unfold runner_unfold split: storage.splits option.splits exit_path.splits if_splits)

lemma inv_decoded_init: "inv_decoded e init_config"
  by (simp add: inv_decoded_def init_config_def init_thread_def)

lemma inv_decoded_step:
  assumes "inv_decoded e s" "t < ncalls e"
  shows "inv_decoded e (step e t s)"
  unfolding inv_decoded_def
proof (intro allI impI)
  fix u assume u: "u < ncalls e" and r: "registered_pc (pc (threads (step e t s) u))"
  show "runner (threads (step e t s) u) = maskoff_pointer (expected (threads (step e t s) u)) \<and>
        runner (threads (step e t s) u) \<noteq> 0"
  proof (cases "u = t")
    case True
    have h: "registered_pc (pc (threads s t)) \<longrightarrow>
        runner (threads s t) = maskoff_pointer (expected (threads s t)) \<and> runner (threads s t) \<noteq> 0"
      using assms unfolding inv_decoded_def by blast
    have r': "registered_pc (pc (threads (step e t s) t))" using r True by simp
    show ?thesis unfolding True using h r' by (rule step_decoded)
  next
    case False
    then have eq: "threads (step e t s) u = threads s u" by (rule step_frame)
    then have "registered_pc (pc (threads s u))" using r by simp
    then have "runner (threads s u) = maskoff_pointer (expected (threads s u)) \<and>
        runner (threads s u) \<noteq> 0"
      using assms(1) u unfolding inv_decoded_def by blast
    then show ?thesis unfolding eq .
  qed
qed

lemma reachable_inv_decoded: "reachable e s \<Longrightarrow> inv_decoded e s"
  by (induction rule: reachable.induct) (simp_all add: inv_decoded_init inv_decoded_step)

lemma registered_points_to_winner:
  assumes wf: "wf_env e" and reach: "reachable e s" and nf: "no_failure e"
    and t: "t < ncalls e" and r: "registered_pc (pc (threads s t))" and w: "w \<in> winners e s"
  shows "runner (threads s t) = local_runner e w"
proof -
  have cap: "inv_cap e s" using reach wf nf by (rule reachable_inv_cap)
  have dec: "runner (threads s t) = maskoff_pointer (expected (threads s t))"
    "runner (threads s t) \<noteq> 0"
    using reachable_inv_decoded[OF reach] t r unfolding inv_decoded_def by blast+
  then have "expected (threads s t) \<noteq> 0" using maskoff_sentinels(1) by auto
  moreover have "expected (threads s t) = 0 \<or>
      (\<exists>k\<le>127. expected (threads s t) = local_runner e w + of_nat k)"
    using cap w t unfolding inv_cap_def by blast
  ultimately obtain k where k: "k \<le> 127" "expected (threads s t) = local_runner e w + of_nat k"
    by auto
  have lt: "w < ncalls e" using w by (simp add: winners_def)
  have "maskoff_pointer (local_runner e w + of_nat k) = local_runner e w"
    using wf_envD(1)[OF wf lt] of_nat_le_127[OF k(1)] by (rule maskoff_aligned_add)
  then show ?thesis using dec(1) k(2) by simp
qed

section \<open>The hand-off from the admission count to the reference count\<close>

text \<open>
  A registered call first spins at line 174 and moves on only when the runner it
  decoded is initialised; line 176 then adds one to that runner's \<open>ref_count\<close> and
  leaves the flag word alone; only line 177 takes one off the flag word.  In every
  reachable configuration a call between its registration and its \<^verbatim>\<open>fetch_sub\<close> keeps
  the flag word different from the bare address of the winner's runner, so that the
  winner's next step can neither publish \<open>done\<close> nor reset the flag and its runner
  stays alive; and a call between its \<^verbatim>\<open>increase_ref\<close> and its \<^verbatim>\<open>decrease_ref\<close> keeps the
  runner it points to alive with \<open>ref_count\<close> at least one, so that the destructor of
  that runner cannot get past its wait.  When no functor raises, the pointer a
  registered call holds is the address of the winner's runner.
\<close>

lemma handoff_steps_and_protection:
  assumes wf: "wf_env e" and reach: "reachable e s" and t: "t < ncalls e" and nub: "\<not> ub (threads s t)"
  shows
    "(pc (threads s t) = Wait_init \<longrightarrow>
        my_state (step e t s) = my_state s \<and> heap (step e t s) = heap s \<and>
        (pc (threads (step e t s) t) = Inc_ref \<longrightarrow> m_initialized (heap s (runner (threads s t)))) \<and>
        pc (threads (step e t s) t) \<in> {Wait_init, Inc_ref}) \<and>
     (pc (threads s t) = Inc_ref \<longrightarrow>
        my_state (step e t s) = my_state s \<and>
        pc (threads (step e t s) t) \<in> {Inc_ref, Fetch_sub} \<and>
        (pc (threads (step e t s) t) = Fetch_sub \<longrightarrow>
           ref_count (heap (step e t s) (runner (threads s t))) =
             ref_count (heap s (runner (threads s t))) + 1)) \<and>
     (pc (threads s t) = Fetch_sub \<longrightarrow>
        pc (threads (step e t s) t) = Assist \<and> my_state (step e t s) = my_state s - 1 \<and>
        heap (step e t s) = heap s) \<and>
     (registered_pc (pc (threads s t)) \<longrightarrow>
        (\<exists>w<ncalls e. winner_pc (pc (threads s w)) \<and> live (heap s (local_runner e w)) \<and>
           my_state s = local_runner e w + of_nat (card (registered e s)) \<and>
           my_state s \<noteq> local_runner e w \<and>
           my_state (step e w s) = my_state s \<and> winner_pc (pc (threads (step e w s) w)))) \<and>
     (holds_ref_pc (pc (threads s t)) \<longrightarrow>
        live (heap s (runner (threads s t))) \<and> 1 \<le> ref_count (heap s (runner (threads s t))) \<and>
        (\<forall>u<ncalls e. \<forall>p. local_runner e u = runner (threads s t) \<and> pc (threads s u) = Dtor p \<longrightarrow>
           step e u s = s)) \<and>
     (no_failure e \<and> registered_pc (pc (threads s t)) \<longrightarrow>
        (\<forall>w\<in>winners e s. runner (threads s t) = local_runner e w))"
proof (intro conjI)
  show "pc (threads s t) = Wait_init \<longrightarrow>
        my_state (step e t s) = my_state s \<and> heap (step e t s) = heap s \<and>
        (pc (threads (step e t s) t) = Inc_ref \<longrightarrow> m_initialized (heap s (runner (threads s t)))) \<and>
        pc (threads (step e t s) t) \<in> {Wait_init, Inc_ref}"
    using nub by (simp add: step_unfold runner_unfold)
  show "pc (threads s t) = Inc_ref \<longrightarrow>
        my_state (step e t s) = my_state s \<and>
        pc (threads (step e t s) t) \<in> {Inc_ref, Fetch_sub} \<and>
        (pc (threads (step e t s) t) = Fetch_sub \<longrightarrow>
           ref_count (heap (step e t s) (runner (threads s t))) =
             ref_count (heap s (runner (threads s t))) + 1)"
    using nub by (simp add: step_unfold runner_unfold)
  show "pc (threads s t) = Fetch_sub \<longrightarrow>
        pc (threads (step e t s) t) = Assist \<and> my_state (step e t s) = my_state s - 1 \<and>
        heap (step e t s) = heap s"
    using nub by (simp add: step_unfold runner_unfold)
next
  show "registered_pc (pc (threads s t)) \<longrightarrow>
        (\<exists>w<ncalls e. winner_pc (pc (threads s w)) \<and> live (heap s (local_runner e w)) \<and>
           my_state s = local_runner e w + of_nat (card (registered e s)) \<and>
           my_state s \<noteq> local_runner e w \<and>
           my_state (step e w s) = my_state s \<and> winner_pc (pc (threads (step e w s) w)))"
  proof
  assume r: "registered_pc (pc (threads s t))"
  have inv: "inv_flag e s" using reach wf by (rule reachable_inv_flag)
  have own: "inv_own e s" using reach wf by (rule reachable_inv_own)
  have tR: "t \<in> registered e s" using r t by (simp add: registered_def)
  then have "winners e s \<noteq> {}" using inv by (auto simp: inv_flag_def)
  then obtain w where wW: "w \<in> winners e s" by auto
  then have w: "w < ncalls e" "winner_pc (pc (threads s w))" by (simp_all add: winners_def)
  have st: "my_state s = local_runner e w + of_nat (card (registered e s))"
    using inv wW by (simp add: inv_flag_def)
  have "card (registered e s) \<noteq> 0" using tR finite_registered[of e s] by auto
  then have ne: "my_state s \<noteq> local_runner e w"
    using active_word_bare[OF wf w(1) card_registered_le[of e s]] st by auto
  have "own_ok (fn e w) (pc (threads s w)) (heap s (local_runner e w))"
    using own w(1) by (simp add: inv_own_def)
  then have lv: "live (heap s (local_runner e w))"
    using w(2) by (cases "pc (threads s w)") (simp_all add: unbuilt_def built_with_def)
  have arm: "armed_pc (pc (threads s w)) \<longrightarrow> local_expected (threads s w) = local_runner e w"
    using inv w(1) by (simp add: inv_flag_def)
  have mv: "flag_move_of e w s = Stutter"
    using w(2) arm ne by (cases "pc (threads s w)") (simp_all add: flag_move_of_def Let_def)
  have "my_state (step e w s) = my_state s" "winner_pc (pc (threads (step e w s) w))"
    using mv w(2) by (simp_all add: step_my_state step_winner_pc)
  then show "\<exists>w<ncalls e. winner_pc (pc (threads s w)) \<and> live (heap s (local_runner e w)) \<and>
           my_state s = local_runner e w + of_nat (card (registered e s)) \<and>
           my_state s \<noteq> local_runner e w \<and>
           my_state (step e w s) = my_state s \<and> winner_pc (pc (threads (step e w s) w))"
    using w st ne lv by blast
  qed
next
  show "holds_ref_pc (pc (threads s t)) \<longrightarrow>
        live (heap s (runner (threads s t))) \<and> 1 \<le> ref_count (heap s (runner (threads s t))) \<and>
        (\<forall>u<ncalls e. \<forall>p. local_runner e u = runner (threads s t) \<and> pc (threads s u) = Dtor p \<longrightarrow>
           step e u s = s)"
  proof
  assume h: "holds_ref_pc (pc (threads s t))"
  have ref: "inv_ref e s" using reach wf by (rule reachable_inv_ref)
  let ?a = "runner (threads s t)"
  have tH: "t \<in> holders e s ?a" using h t by (simp add: holders_def)
  then have lv: "live (heap s ?a)" using ref by (auto simp: inv_ref_def)
  have "card (holders e s ?a) \<noteq> 0" using tH finite_holders[of e s ?a] by auto
  then have rc: "1 \<le> ref_count (heap s ?a)" using ref by (simp add: inv_ref_def)
  have "step e u s = s" if "local_runner e u = ?a" "pc (threads s u) = Dtor p" for u p
    using that rc by (simp add: step_def once_runner_dtor_def spin_wait_while_def)
  then show "live (heap s ?a) \<and> 1 \<le> ref_count (heap s ?a) \<and>
        (\<forall>u<ncalls e. \<forall>p. local_runner e u = ?a \<and> pc (threads s u) = Dtor p \<longrightarrow> step e u s = s)"
    using lv rc by blast
  qed
next
  show "no_failure e \<and> registered_pc (pc (threads s t)) \<longrightarrow>
        (\<forall>w\<in>winners e s. runner (threads s t) = local_runner e w)"
    using registered_points_to_winner[OF wf reach _ t] by blast
qed

lemma handoff_steps_and_protection_instance:
  "wf_env two_calls \<and> reachable two_calls assisting_state \<and> (1::nat) < ncalls two_calls \<and>
   \<not> ub (threads assisting_state 1) \<and> pc (threads assisting_state 1) = Fetch_sub \<and>
   pc (threads (step two_calls 1 assisting_state) 1) = Assist \<and>
   my_state (step two_calls 1 assisting_state) = 128 \<and>
   live (heap assisting_state 128) \<and> 1 \<le> ref_count (heap assisting_state 128)"
proof -
  have lt: "(1::nat) < ncalls two_calls" by (simp add: two_calls_def)
  note f = assisting_state_facts
  show ?thesis
    using handoff_steps_and_protection[OF wf_two_calls assisting_state_reachable lt f(5)]
      wf_two_calls assisting_state_reachable lt f
    by simp
qed

section \<open>The claims\<close>

text \<open>
  C1.  The bound of the admission count does not hold on the code: after the schedule
  below (130 calls, the functor of call 0 raises), call 2 is the winner, the flag word
  is the address of its runner plus the number of registered calls, and 128 calls are
  registered, more than \<open>max_nfs_size - 1 = 127\<close>.  The environment is well formed
  (\<open>wf_many_calls\<close>) and the configuration is reached from the fresh flag by steps of
  the calls alone.  The other parts of the statement hold in every reachable
  configuration (\<open>flag_word_transitions\<close>), and so does the bound when no functor
  raises (\<open>admission_cap_without_failure\<close>).
\<close>

theorem admission_count_exceeds_bound:
  "overflow_state = run many_calls (saturating_schedule @ [1, 1, 1]) init_config \<and>
   winners many_calls overflow_state = {2} \<and>
   my_state overflow_state =
     local_runner many_calls 2 + of_nat (card (registered many_calls overflow_state)) \<and>
   card (registered many_calls overflow_state) = 128 \<and>
   unat (max_nfs_size - 1) < card (registered many_calls overflow_state)"
proof -
  have "overflow_state = run many_calls (saturating_schedule @ [1, 1, 1]) init_config"
    by (simp only: overflow_state_def saturated_state_def run_append)
  moreover have "my_state overflow_state =
     local_runner many_calls 2 + of_nat (card (registered many_calls overflow_state))"
    by (simp add: overflow_registered overflow_state_facts(1) many_calls_runners)
  moreover have "unat (max_nfs_size - 1) < card (registered many_calls overflow_state)"
    by (simp add: overflow_registered max_nfs_size_def bit_count_def)
  ultimately show ?thesis using overflow_winner overflow_registered by simp
qed

text \<open>
  C2.  In every reachable configuration, whatever the functors do, at most one call
  holds the winner role; a call enters that role only by its own successful
  compare-and-swap of line 146, from \<open>uninitialized\<close> to the address of its runner, and
  the step of one call never gives the role to another.  When the functor of every call
  increments the shared counter (which starts at 0), the counter never exceeds 1, and
  it is exactly 1 once every one of the \<open>ncalls e > 0\<close> calls on the fresh flag has
  returned.
\<close>

theorem one_winner_counter_one:
  assumes wf: "wf_env e" and reach: "reachable e s"
  shows
    "card (winners e s) \<le> 1 \<and>
     (\<forall>t<ncalls e. t \<notin> winners e s \<and> t \<in> winners e (step e t s) \<longrightarrow>
        my_state s = state_uninitialized \<and> my_state (step e t s) = local_runner e t) \<and>
     (\<forall>t<ncalls e. \<forall>u<ncalls e. u \<noteq> t \<longrightarrow> (u \<in> winners e (step e t s)) = (u \<in> winners e s)) \<and>
     ((\<forall>t<ncalls e. fn e t = counting) \<longrightarrow>
        shared s \<le> 1 \<and>
        (0 < ncalls e \<and> (\<forall>t<ncalls e. pc (threads s t) = Returned) \<longrightarrow> shared s = 1))"
proof (intro conjI)
  have inv: "inv_flag e s" using reach wf by (rule reachable_inv_flag)
  show "card (winners e s) \<le> 1"
    using flag_idle_or_active[OF inv] by auto
  show "\<forall>t<ncalls e. t \<notin> winners e s \<and> t \<in> winners e (step e t s) \<longrightarrow>
        my_state s = state_uninitialized \<and> my_state (step e t s) = local_runner e t"
  proof (intro allI impI)
    fix t assume t: "t < ncalls e" and h: "t \<notin> winners e s \<and> t \<in> winners e (step e t s)"
    have "flag_move_of e t s = Win"
      using h by (cases "flag_move_of e t s") (simp_all add: winners_step_cases[OF t])
    then show "my_state s = state_uninitialized \<and> my_state (step e t s) = local_runner e t"
      using flag_move_Win[of e t s] by (simp add: step_my_state)
  qed
  show "\<forall>t<ncalls e. \<forall>u<ncalls e. u \<noteq> t \<longrightarrow> (u \<in> winners e (step e t s)) = (u \<in> winners e s)"
    by (simp add: winners_def step_frame)
  show "(\<forall>t<ncalls e. fn e t = counting) \<longrightarrow>
        shared s \<le> 1 \<and>
        (0 < ncalls e \<and> (\<forall>t<ncalls e. pc (threads s t) = Returned) \<longrightarrow> shared s = 1)"
  proof
    assume cnt: "\<forall>t<ncalls e. fn e t = counting"
    have dn: "inv_done e s" using reach wf by (rule reachable_inv_done)
    have ct: "inv_count e s" using reach wf cnt by (rule reachable_inv_count)
    have le: "shared s \<le> 1" using ct by (simp add: inv_count_def)
    have "shared s = 1" if h: "0 < ncalls e \<and> (\<forall>t<ncalls e. pc (threads s t) = Returned)"
    proof -
      from h have "returning_pc (pc (threads s 0))" by simp
      then have "my_state s = state_done" using dn h unfolding inv_done_def by blast
      then show "shared s = 1" using ct by (simp add: inv_count_def)
    qed
    then show "shared s \<le> 1 \<and>
        (0 < ncalls e \<and> (\<forall>t<ncalls e. pc (threads s t) = Returned) \<longrightarrow> shared s = 1)"
      using le by blast
  qed
qed

theorem one_winner_counter_one_witness:
  "wf_env two_calls \<and> reachable two_calls overlapped_state \<and>
   overlapped_state =
     run two_calls [0, 0, 0, 0, 1, 1, 1, 1, 1, 1, 1, 0, 1, 1, 0, 0, 1, 0, 1, 1, 1, 1] init_config \<and>
   fn two_calls 0 = counting \<and> fn two_calls 1 = counting \<and>
   pc (threads overlapped_state 0) = Returned \<and> pc (threads overlapped_state 1) = Returned \<and>
   shared overlapped_state = 1 \<and>
   wf_env two_failing \<and> reachable two_failing failing_state \<and>
   raises (fn two_failing 0) = Some (Exn 7) \<and>
   winners two_failing failing_state = {0} \<and>
   card (winners two_failing failing_state) \<le> 1"
proof -
  have c: "\<forall>t<ncalls two_calls. fn two_calls t = counting" by (simp add: two_calls_def)
  have r: "0 < ncalls two_calls \<and> (\<forall>t<ncalls two_calls. pc (threads overlapped_state t) = Returned)"
  proof -
    have "pc (threads overlapped_state t) = Returned" if "t < 2" for t
    proof -
      from that have "t = 0 \<or> t = 1" by auto
      then show ?thesis using overlapped_state_facts(1,2) by auto
    qed
    then show ?thesis by (simp add: two_calls_def)
  qed
  have "shared overlapped_state = 1"
    using one_winner_counter_one[OF wf_two_calls overlapped_state_reachable] c r by blast
  moreover have "card (winners two_failing failing_state) \<le> 1"
    using one_winner_counter_one[OF wf_two_failing failing_state_reachable] by blast
  moreover have "overlapped_state =
     run two_calls [0, 0, 0, 0, 1, 1, 1, 1, 1, 1, 1, 0, 1, 1, 0, 0, 1, 0, 1, 1, 1, 1] init_config"
    by (simp only: overlapped_state_def assisting_state_def run_append[symmetric] append.simps)
  moreover have "raises (fn two_failing 0) = Some (Exn 7)" by (simp add: two_failing_def failing_def)
  ultimately show ?thesis
    using wf_two_calls overlapped_state_reachable overlapped_state_facts(1,2)
      wf_two_failing failing_state_reachable failing_state_winner
    by (simp add: two_calls_def)
qed

text \<open>
  C3.  When the functor of the winning call raises, the wait of \<^verbatim>\<open>run_once\<close> hands the
  failure to the \<^verbatim>\<open>on_exception\<close> loop with the flag word untouched.  In every reachable
  configuration the call in that loop carries the failure its own functor raised, its
  \<open>local_expected\<close> is the bare address of its runner, and the flag word is that address
  plus the number of registered calls: while any call is registered the step changes
  nothing (the compare-and-swap fails and \<open>local_expected\<close> is set back to the bare
  address), and once none is registered the step stores \<open>uninitialized\<close> and the call
  goes on to its destructor, after which it raises that same failure.  A fresh call
  that then finds the flag \<open>uninitialized\<close> wins the flag with its own two steps.
\<close>

theorem failure_resets_flag:
  assumes wf: "wf_env e" and reach: "reachable e s" and t: "t < ncalls e" and nub: "\<not> ub (threads s t)"
  shows
    "(pc (threads s t) = Run_wait \<and> raises (fn e t) = Some x \<longrightarrow>
        pc (threads (step e t s) t) = Reset_cas x \<and> my_state (step e t s) = my_state s) \<and>
     (pc (threads s t) = Reset_cas x \<longrightarrow>
        raises (fn e t) = Some x \<and> local_expected (threads s t) = local_runner e t \<and>
        my_state s = local_runner e t + of_nat (card (registered e s)) \<and>
        (registered e s \<noteq> {} \<longrightarrow> step e t s = s) \<and>
        (registered e s = {} \<longrightarrow>
           my_state (step e t s) = state_uninitialized \<and>
           pc (threads (step e t s) t) = Dtor (Exit_exception x))) \<and>
     (pc (threads s t) = Dtor (Exit_exception x) \<and> ref_count (heap s (local_runner e t)) \<le> 0 \<longrightarrow>
        pc (threads (step e t s) t) = Raised x) \<and>
     (pc (threads s t) = Start \<and> my_state s = state_uninitialized \<longrightarrow>
        pc (threads (run e [t, t] s) t) = Make_runner \<and>
        my_state (run e [t, t] s) = local_runner e t)"
proof (intro conjI)
  have ok: "own_ok (fn e t) (pc (threads s t)) (heap s (local_runner e t))"
    using own_ok_at[OF wf reach t] .
  show "pc (threads s t) = Run_wait \<and> raises (fn e t) = Some x \<longrightarrow>
        pc (threads (step e t s) t) = Reset_cas x \<and> my_state (step e t s) = my_state s"
    using ok nub by (auto simp: step_unfold runner_unfold built_with_def)
  show "pc (threads s t) = Reset_cas x \<longrightarrow>
        raises (fn e t) = Some x \<and> local_expected (threads s t) = local_runner e t \<and>
        my_state s = local_runner e t + of_nat (card (registered e s)) \<and>
        (registered e s \<noteq> {} \<longrightarrow> step e t s = s) \<and>
        (registered e s = {} \<longrightarrow>
           my_state (step e t s) = state_uninitialized \<and>
           pc (threads (step e t s) t) = Dtor (Exit_exception x))"
  proof
    assume pc: "pc (threads s t) = Reset_cas x"
    have inv: "inv_flag e s" using reach wf by (rule reachable_inv_flag)
    have r: "raises (fn e t) = Some x" using ok pc by simp
    have le: "local_expected (threads s t) = local_runner e t"
      using inv t pc by (simp add: inv_flag_def)
    have "t \<in> winners e s" using pc t by (simp add: winners_def)
    then have st: "my_state s = local_runner e t + of_nat (card (registered e s))"
      using inv by (simp add: inv_flag_def)
    have ne: "my_state s \<noteq> local_runner e t" if "registered e s \<noteq> {}"
    proof -
      have "card (registered e s) \<noteq> 0" using that finite_registered[of e s] by auto
      then show ?thesis using active_word_bare[OF wf t card_registered_le[of e s]] st by auto
    qed
    have same: "threads s t\<lparr>local_expected := local_runner e t\<rparr> = threads s t"
      using le by (cases "threads s t") simp
    have spin: "registered e s \<noteq> {} \<longrightarrow> step e t s = s"
      using ne pc nub le by (simp add: step_unfold same)
    have go: "registered e s = {} \<longrightarrow>
           my_state (step e t s) = state_uninitialized \<and>
           pc (threads (step e t s) t) = Dtor (Exit_exception x)"
      using st pc nub le by (simp add: step_unfold)
    show "raises (fn e t) = Some x \<and> local_expected (threads s t) = local_runner e t \<and>
        my_state s = local_runner e t + of_nat (card (registered e s)) \<and>
        (registered e s \<noteq> {} \<longrightarrow> step e t s = s) \<and>
        (registered e s = {} \<longrightarrow>
           my_state (step e t s) = state_uninitialized \<and>
           pc (threads (step e t s) t) = Dtor (Exit_exception x))"
      using r le st spin go by (intro conjI)
  qed
  show "pc (threads s t) = Dtor (Exit_exception x) \<and> ref_count (heap s (local_runner e t)) \<le> 0 \<longrightarrow>
        pc (threads (step e t s) t) = Raised x"
    using nub by (simp add: step_unfold runner_unfold)
  show "pc (threads s t) = Start \<and> my_state s = state_uninitialized \<longrightarrow>
        pc (threads (run e [t, t] s) t) = Make_runner \<and>
        my_state (run e [t, t] s) = local_runner e t"
    using nub by (simp add: step_unfold runner_unfold)
qed

theorem failure_resets_flag_witness:
  "wf_env two_failing \<and> reachable two_failing failing_state \<and> (0::nat) < ncalls two_failing \<and>
   \<not> ub (threads failing_state 0) \<and> pc (threads failing_state 0) = Reset_cas (Exn 7) \<and>
   registered two_failing failing_state = {} \<and>
   raises (fn two_failing 0) = Some (Exn 7) \<and>
   my_state (step two_failing 0 failing_state) = state_uninitialized \<and>
   pc (threads (step two_failing 0 failing_state) 0) = Dtor (Exit_exception (Exn 7))"
proof -
  have lt: "(0::nat) < ncalls two_failing" by (simp add: two_failing_def)
  note f = failing_state_facts
  show ?thesis
    using failure_resets_flag[OF wf_two_failing failing_state_reachable lt f(5), of "Exn 7"]
      wf_two_failing failing_state_reachable lt f failing_state_drained
    by simp
qed

text \<open>
  C4.  On a flag whose word is \<open>done\<close>, a fresh call, whatever its functor and
  whatever the rest of the configuration, is over after its own three steps (load,
  loop test, destructor): it has returned and not raised, the flag word and the shared
  data are as before (the functor did not run), no other call and no other runner was
  touched, and its own runner was never built.
\<close>

theorem done_flag_returns_immediately:
  assumes "my_state s = state_done" and "pc (threads s t) = Start" and "\<not> ub (threads s t)"
  shows "pc (threads (run e [t, t, t] s) t) = Returned \<and>
         my_state (run e [t, t, t] s) = state_done \<and>
         shared (run e [t, t, t] s) = shared s \<and>
         (\<forall>u. u \<noteq> t \<longrightarrow> threads (run e [t, t, t] s) u = threads s u) \<and>
         (\<forall>a. a \<noteq> local_runner e t \<longrightarrow> heap (run e [t, t, t] s) a = heap s a) \<and>
         heap (run e [t, t, t] s) (local_runner e t) = once_runner_ctor\<lparr>live := False\<rparr> \<and>
         m_storage (heap (run e [t, t, t] s) (local_runner e t)) = Unbuilt"
proof -
  define s1 where "s1 = step e t s"
  define s2 where "s2 = step e t s1"
  define s3 where "s3 = step e t s2"
  have s1: "s1 = upd_runner (local_runner e t) (\<lambda>_. once_runner_ctor)
       (upd_thread t (\<lambda>th. th\<lparr>expected := state_done, pc := Loop\<rparr>) s)"
    using assms by (simp add: s1_def step_def)
  have s2: "s2 = goto t (Dtor Exit_loop) s1"
    unfolding s2_def by (simp add: step_def s1 upd_runner_def upd_thread_def assms(3))
  have s3: "s3 = goto t Returned (upd_runner (local_runner e t) (\<lambda>_. once_runner_ctor\<lparr>live := False\<rparr>) s2)"
    unfolding s3_def
    by (simp add: step_def s2 s1 upd_runner_def upd_thread_def goto_def assms(3)
        once_runner_dtor_def spin_wait_while_def once_runner_ctor_def)
  have "run e [t, t, t] s = s3" by (simp add: s3_def s2_def s1_def)
  then show ?thesis
    by (simp add: s3 s2 s1 upd_runner_def upd_thread_def goto_def assms(1) once_runner_ctor_def)
qed

theorem done_flag_returns_immediately_witness:
  "my_state (init_config\<lparr>my_state := state_done\<rparr>) = state_done \<and>
   pc (threads (init_config\<lparr>my_state := state_done\<rparr>) 1) = Start \<and>
   \<not> ub (threads (init_config\<lparr>my_state := state_done\<rparr>) 1) \<and>
   pc (threads (run two_calls [1, 1, 1] (init_config\<lparr>my_state := state_done\<rparr>)) 1) = Returned \<and>
   shared (run two_calls [1, 1, 1] (init_config\<lparr>my_state := state_done\<rparr>)) = 0"
proof -
  let ?s = "init_config\<lparr>my_state := state_done\<rparr>"
  have a: "my_state ?s = state_done" "pc (threads ?s 1) = Start" "\<not> ub (threads ?s 1)"
    by (simp_all add: init_config_def init_thread_def)
  show ?thesis using done_flag_returns_immediately[OF a, of two_calls] a
    by (simp add: init_config_def)
qed

text \<open>
  C5.  The cap on registrations does not hold on the code.  The sentinel of line 168 is
  computed from the caller's \<open>expected\<close>, which may be stale: call 1 read the flag
  word while runner 0 was published, runner 0's attempt failed and call 2 published its
  own runner, on which 127 calls registered.  The flag word is then the saturated
  sentinel of runner 2, yet call 1 compares it with the sentinel of runner 0, does not
  wait, and registers: the flag word becomes the address of runner 2 plus 128, its
  count bits are all zero and its address bits no longer decode to runner 2.  When no
  functor raises the cap does hold (\<open>admission_cap_without_failure\<close>).
\<close>

theorem saturated_sentinel_not_respected:
  "winner_pc (pc (threads saturated_state 2)) \<and>
   my_state saturated_state = local_runner many_calls 2 OR (max_nfs_size - 1) \<and>
   pc (threads saturated_state 1) = Loop \<and>
   expected (threads saturated_state 1) = local_runner many_calls 0 \<and>
   pc (threads (run many_calls [1, 1] saturated_state) 1) = Reg_cas \<and>
   pc (threads (run many_calls [1, 1, 1] saturated_state) 1) = Wait_init \<and>
   my_state (run many_calls [1, 1, 1] saturated_state) = local_runner many_calls 2 + max_nfs_size \<and>
   my_state (run many_calls [1, 1, 1] saturated_state) AND (max_nfs_size - 1) = 0 \<and>
   maskoff_pointer (my_state (run many_calls [1, 1, 1] saturated_state)) \<noteq> local_runner many_calls 2"
proof -
  note s = saturated_state_facts and o = overflow_state_facts[unfolded overflow_state_def]
  have "winner_pc (pc (threads saturated_state 2))" using s(2) by simp
  moreover have "my_state saturated_state = local_runner many_calls 2 OR (max_nfs_size - 1)"
    by (simp add: s(1) many_calls_runners max_nfs_size_def bit_count_def)
  moreover have "expected (threads saturated_state 1) = local_runner many_calls 0"
    by (simp only: s(4) many_calls_runners)
  moreover have "my_state (run many_calls [1, 1, 1] saturated_state) = local_runner many_calls 2 + max_nfs_size"
    by (simp only: o(1) many_calls_runners) (simp add: max_nfs_size_def bit_count_def)
  moreover have "my_state (run many_calls [1, 1, 1] saturated_state) AND (max_nfs_size - 1) = 0"
    by (simp only: o(1)) (simp add: max_nfs_size_def bit_count_def)
  moreover have "maskoff_pointer (my_state (run many_calls [1, 1, 1] saturated_state)) \<noteq>
      local_runner many_calls 2"
    by (simp only: o(1) many_calls_runners) (simp add: maskoff_eval)
  ultimately show ?thesis using s(3) resumed_facts(1) o(2) by simp
qed

text \<open>
  C6.  The order of the hand-off is the one stated (\<open>handoff_steps_and_protection\<close>:
  the wait of line 174, then \<^verbatim>\<open>increase_ref\<close>, then \<^verbatim>\<open>fetch_sub\<close>), but the protection
  does not hold on the code, because the pointer a registered call decodes need not be
  the address of the Runner.  Once the admission count has overflowed, the flag word is
  the address of runner 2 plus 128.  Call 130 reads that word at line 143, registers
  with the compare-and-swap of line 171, and decodes at line 173 the address of runner 2
  plus 128.  Call 2 is the winner and its runner is alive, yet the address call 130
  holds is not the address of that runner and no runner is alive there: the wait of
  line 174 reads memory that is not a runner.  Neither the admission count nor any
  \<open>ref_count\<close> protects what call 130 dereferences.  The environment is well formed
  (\<open>wf_wide_calls\<close>) and the configuration is reached from the fresh flag by steps of
  the calls alone.  When no functor raises, the decoded pointer is the address of the
  winner's runner in every reachable configuration (\<open>registered_points_to_winner\<close>).
\<close>

theorem registered_call_decodes_stray_address:
  "stray_state =
     run wide_calls (saturating_schedule @ [1, 1, 1] @ [130, 130, 130, 130]) init_config \<and>
   winners wide_calls stray_state = {2} \<and>
   live (heap stray_state (local_runner wide_calls 2)) \<and>
   my_state stray_state = local_runner wide_calls 2 + max_nfs_size + 1 \<and>
   130 \<in> registered wide_calls stray_state \<and>
   pc (threads stray_state 130) = Wait_init \<and>
   \<not> ub (threads stray_state 130) \<and>
   runner (threads stray_state 130) = local_runner wide_calls 2 + max_nfs_size \<and>
   runner (threads stray_state 130) \<noteq> local_runner wide_calls 2 \<and>
   \<not> live (heap stray_state (runner (threads stray_state 130))) \<and>
   ub (threads (step wide_calls 130 stray_state) 130)"
proof -
  note f = stray_state_facts
  have "130 \<in> registered wide_calls stray_state"
    by (simp add: registered_def wide_calls_def f(2))
  moreover have "my_state stray_state = local_runner wide_calls 2 + max_nfs_size + 1"
    by (simp only: f(1) wide_calls_runners) (simp add: max_nfs_size_def bit_count_def)
  moreover have "runner (threads stray_state 130) = local_runner wide_calls 2 + max_nfs_size"
    by (simp only: f(3) wide_calls_runners) (simp add: max_nfs_size_def bit_count_def)
  moreover have "runner (threads stray_state 130) \<noteq> local_runner wide_calls 2"
    by (simp only: f(3) wide_calls_runners) simp
  moreover have dead: "\<not> live (heap stray_state (runner (threads stray_state 130)))"
    unfolding f(3) by (rule stray_address_dead)
  moreover have "ub (threads (step wide_calls 130 stray_state) 130)"
    using dead f(2,4) by (simp add: step_unfold)
  moreover have "stray_state =
     run wide_calls (saturating_schedule @ [1, 1, 1] @ [130, 130, 130, 130]) init_config"
    by (rule stray_state_def)
  ultimately show ?thesis
    using stray_winner stray_winner_alive f(2,4) by blast
qed

text \<open>
  C7.  The destructor of \<^verbatim>\<open>local_runner\<close> is the only step by which a call becomes
  returned or raised, on every way out (loop exit, the return of line 164, the failure
  of the functor).  While \<open>ref_count\<close> is positive the step changes nothing; when it
  gets past the wait \<open>ref_count\<close> is exactly 0, the lifetime of the runner ends, and
  the bundle is destroyed exactly when \<open>m_initialized\<close> is set.  On the loop-exit path
  (the call never won) the bundle is unbuilt before and after the destructor; on the
  two winner paths it had been built.
\<close>

theorem runner_destructor:
  assumes wf: "wf_env e" and reach: "reachable e s" and t: "t < ncalls e" and nub: "\<not> ub (threads s t)"
  shows
    "(\<forall>p. pc (threads s t) = Dtor p \<longrightarrow>
        (0 < ref_count (heap s (local_runner e t)) \<longrightarrow> step e t s = s) \<and>
        (\<not> 0 < ref_count (heap s (local_runner e t)) \<longrightarrow>
           ref_count (heap s (local_runner e t)) = 0 \<and>
           pc (threads (step e t s) t) = (case p of Exit_exception x \<Rightarrow> Raised x | _ \<Rightarrow> Returned) \<and>
           \<not> live (heap (step e t s) (local_runner e t)) \<and>
           m_storage (heap (step e t s) (local_runner e t)) =
             (if m_initialized (heap s (local_runner e t)) then Destroyed
              else m_storage (heap s (local_runner e t)))) \<and>
        (p = Exit_loop \<longrightarrow>
           \<not> m_initialized (heap s (local_runner e t)) \<and>
           m_storage (heap s (local_runner e t)) = Unbuilt \<and>
           m_storage (heap (step e t s) (local_runner e t)) = Unbuilt) \<and>
        (p \<noteq> Exit_loop \<longrightarrow>
           m_initialized (heap s (local_runner e t)) \<and>
           (\<exists>st. m_storage (heap s (local_runner e t)) = Built st))) \<and>
     ((pc (threads (step e t s) t) = Returned \<or> (\<exists>x. pc (threads (step e t s) t) = Raised x)) \<and>
        pc (threads (step e t s) t) \<noteq> pc (threads s t) \<longrightarrow> (\<exists>p. pc (threads s t) = Dtor p)) \<and>
     (pc (threads s t) = Returned \<or> (\<exists>x. pc (threads s t) = Raised x) \<longrightarrow>
        \<not> live (heap s (local_runner e t)) \<and> m_storage (heap s (local_runner e t)) \<noteq> Built st)"
proof (intro conjI allI)
  fix p
  show "pc (threads s t) = Dtor p \<longrightarrow>
        (0 < ref_count (heap s (local_runner e t)) \<longrightarrow> step e t s = s) \<and>
        (\<not> 0 < ref_count (heap s (local_runner e t)) \<longrightarrow>
           ref_count (heap s (local_runner e t)) = 0 \<and>
           pc (threads (step e t s) t) = (case p of Exit_exception x \<Rightarrow> Raised x | _ \<Rightarrow> Returned) \<and>
           \<not> live (heap (step e t s) (local_runner e t)) \<and>
           m_storage (heap (step e t s) (local_runner e t)) =
             (if m_initialized (heap s (local_runner e t)) then Destroyed
              else m_storage (heap s (local_runner e t)))) \<and>
        (p = Exit_loop \<longrightarrow>
           \<not> m_initialized (heap s (local_runner e t)) \<and>
           m_storage (heap s (local_runner e t)) = Unbuilt \<and>
           m_storage (heap (step e t s) (local_runner e t)) = Unbuilt) \<and>
        (p \<noteq> Exit_loop \<longrightarrow>
           m_initialized (heap s (local_runner e t)) \<and>
           (\<exists>st. m_storage (heap s (local_runner e t)) = Built st))"
  proof
    assume pc: "pc (threads s t) = Dtor p"
    have ok: "own_ok (fn e t) (Dtor p) (heap s (local_runner e t))"
      using own_ok_at[OF wf reach t] pc by simp
    have nn: "0 \<le> ref_count (heap s (local_runner e t))" using wf reach by (rule ref_count_nonneg)
    have a: "0 < ref_count (heap s (local_runner e t)) \<longrightarrow> step e t s = s"
      using pc nub by (simp add: step_def once_runner_dtor_def spin_wait_while_def)
    have b: "\<not> 0 < ref_count (heap s (local_runner e t)) \<longrightarrow>
           ref_count (heap s (local_runner e t)) = 0 \<and>
           pc (threads (step e t s) t) = (case p of Exit_exception x \<Rightarrow> Raised x | _ \<Rightarrow> Returned) \<and>
           \<not> live (heap (step e t s) (local_runner e t)) \<and>
           m_storage (heap (step e t s) (local_runner e t)) =
             (if m_initialized (heap s (local_runner e t)) then Destroyed
              else m_storage (heap s (local_runner e t)))"
      using pc nub nn by (simp add: step_unfold runner_unfold)
    have c: "p = Exit_loop \<longrightarrow>
           \<not> m_initialized (heap s (local_runner e t)) \<and>
           m_storage (heap s (local_runner e t)) = Unbuilt \<and>
           m_storage (heap (step e t s) (local_runner e t)) = Unbuilt"
      using pc nub ok by (auto simp: step_unfold runner_unfold unbuilt_def split: option.splits)
    have d: "p \<noteq> Exit_loop \<longrightarrow>
           m_initialized (heap s (local_runner e t)) \<and>
           (\<exists>st. m_storage (heap s (local_runner e t)) = Built st)"
      using ok by (cases p) (simp_all add: built_with_def)
    show "(0 < ref_count (heap s (local_runner e t)) \<longrightarrow> step e t s = s) \<and>
        (\<not> 0 < ref_count (heap s (local_runner e t)) \<longrightarrow>
           ref_count (heap s (local_runner e t)) = 0 \<and>
           pc (threads (step e t s) t) = (case p of Exit_exception x \<Rightarrow> Raised x | _ \<Rightarrow> Returned) \<and>
           \<not> live (heap (step e t s) (local_runner e t)) \<and>
           m_storage (heap (step e t s) (local_runner e t)) =
             (if m_initialized (heap s (local_runner e t)) then Destroyed
              else m_storage (heap s (local_runner e t)))) \<and>
        (p = Exit_loop \<longrightarrow>
           \<not> m_initialized (heap s (local_runner e t)) \<and>
           m_storage (heap s (local_runner e t)) = Unbuilt \<and>
           m_storage (heap (step e t s) (local_runner e t)) = Unbuilt) \<and>
        (p \<noteq> Exit_loop \<longrightarrow>
           m_initialized (heap s (local_runner e t)) \<and>
           (\<exists>st. m_storage (heap s (local_runner e t)) = Built st))"
      using a b c d by (intro conjI)
  qed
next
  show "(pc (threads (step e t s) t) = Returned \<or> (\<exists>x. pc (threads (step e t s) t) = Raised x)) \<and>
        pc (threads (step e t s) t) \<noteq> pc (threads s t) \<longrightarrow> (\<exists>p. pc (threads s t) = Dtor p)"
    using nub
    by (cases "pc (threads s t)")
       (auto simp: step_unfold runner_unfold split: storage.splits option.splits if_splits)
next
  have ok: "own_ok (fn e t) (pc (threads s t)) (heap s (local_runner e t))"
    using own_ok_at[OF wf reach t] .
  show "pc (threads s t) = Returned \<or> (\<exists>x. pc (threads s t) = Raised x) \<longrightarrow>
        \<not> live (heap s (local_runner e t)) \<and> m_storage (heap s (local_runner e t)) \<noteq> Built st"
    using ok by (auto split: if_splits)
qed

theorem runner_destructor_witness:
  "wf_env two_calls \<and> reachable two_calls returning_state \<and> (1::nat) < ncalls two_calls \<and>
   \<not> ub (threads returning_state 1) \<and> pc (threads returning_state 1) = Dtor Exit_loop \<and>
   ref_count (heap returning_state (local_runner two_calls 1)) = 0 \<and>
   pc (threads (step two_calls 1 returning_state) 1) = Returned \<and>
   m_storage (heap (step two_calls 1 returning_state) (local_runner two_calls 1)) = Unbuilt"
proof -
  have lt: "(1::nat) < ncalls two_calls" by (simp add: two_calls_def)
  note f = returning_state_facts
  have "\<not> 0 < ref_count (heap returning_state (local_runner two_calls 1))"
    by (simp add: returning_state_def eval_unfold)
  then show ?thesis
    using runner_destructor[OF wf_two_calls returning_state_reachable lt f(4)]
      wf_two_calls returning_state_reachable lt f
    by simp
qed

text \<open>
  C8.  \<^verbatim>\<open>assist\<close> waits on the completion counter with a stub context: it never raises,
  whatever failure the runner's own context holds, and is still waiting exactly while
  the counter is not zero.  The step at line 181 leaves the shared data, the flag word
  and every runner as they are and ends at line 181 or 183.  The functor's effect
  happens at no control point other than the winner's task, and a call comes to carry
  a failure only from the wait of \<^verbatim>\<open>run_once\<close>.  In every reachable configuration a
  call that carries a failure is one whose own functor raises and whose own bundle was
  built (it won its attempt); what it raises is what its functor raised; and no call
  is terminated by a failure escaping the \<^verbatim>\<open>noexcept\<close> lambda.
\<close>

theorem assist_never_raises:
  assumes wf: "wf_env e" and reach: "reachable e s" and t: "t < ncalls e" and nub: "\<not> ub (threads s t)"
  shows
    "assist st \<noteq> Some (Some x) \<and> assist st = await_zero (my_wait_context st) None \<and>
     (assist st = None \<longleftrightarrow> my_wait_context st \<noteq> 0) \<and>
     (pc (threads s t) = Assist \<longrightarrow>
        shared (step e t s) = shared s \<and> my_state (step e t s) = my_state s \<and>
        heap (step e t s) = heap s \<and>
        pc (threads (step e t s) t) \<in> {Assist, Dec_ref}) \<and>
     (\<not> failure_pc (pc (threads s t)) \<and> pc (threads s t) \<noteq> Run_wait \<longrightarrow>
        \<not> failure_pc (pc (threads (step e t s) t))) \<and>
     (pc (threads s t) \<noteq> Run_task \<longrightarrow> shared (step e t s) = shared s) \<and>
     (failure_pc (pc (threads s t)) \<longrightarrow>
        pc (threads s t) \<noteq> Terminated \<and> raises (fn e t) \<noteq> None \<and>
        m_initialized (heap s (local_runner e t))) \<and>
     (pc (threads s t) = Raised x \<longrightarrow> raises (fn e t) = Some x)"
proof (intro conjI)
  show "assist st \<noteq> Some (Some x)" "assist st = await_zero (my_wait_context st) None"
    "assist st = None \<longleftrightarrow> my_wait_context st \<noteq> 0"
    by (simp_all add: assist_def await_zero_def)
  show "pc (threads s t) = Assist \<longrightarrow>
        shared (step e t s) = shared s \<and> my_state (step e t s) = my_state s \<and>
        heap (step e t s) = heap s \<and>
        pc (threads (step e t s) t) \<in> {Assist, Dec_ref}"
    using nub by (auto simp: step_unfold runner_unfold split: storage.splits)
  show "\<not> failure_pc (pc (threads s t)) \<and> pc (threads s t) \<noteq> Run_wait \<longrightarrow>
        \<not> failure_pc (pc (threads (step e t s) t))"
    using nub
    by (cases "pc (threads s t)")
       (auto simp: step_unfold runner_unfold split: storage.splits option.splits exit_path.splits)
  show "pc (threads s t) \<noteq> Run_task \<longrightarrow> shared (step e t s) = shared s"
    by (cases "pc (threads s t)")
       (auto simp: step_unfold runner_unfold split: storage.splits option.splits exit_path.splits)
  have ok: "own_ok (fn e t) (pc (threads s t)) (heap s (local_runner e t))"
    using own_ok_at[OF wf reach t] .
  show "failure_pc (pc (threads s t)) \<longrightarrow>
        pc (threads s t) \<noteq> Terminated \<and> raises (fn e t) \<noteq> None \<and>
        m_initialized (heap s (local_runner e t))"
    using ok by (cases "(pc (threads s t))" rule: failure_pc.cases) (auto simp: built_with_def)
  show "pc (threads s t) = Raised x \<longrightarrow> raises (fn e t) = Some x"
    using ok by auto
qed

theorem assist_never_raises_witness:
  "wf_env two_failing \<and> reachable two_failing failing_state \<and> (1::nat) < ncalls two_failing \<and>
   \<not> ub (threads failing_state 1) \<and> pc (threads failing_state 1) = Assist \<and>
   pc (threads failing_state 0) = Reset_cas (Exn 7) \<and>
   pc (threads (step two_failing 1 failing_state) 1) = Dec_ref \<and>
   shared (step two_failing 1 failing_state) = shared failing_state"
proof -
  have lt: "(1::nat) < ncalls two_failing" by (simp add: two_failing_def)
  note f = failing_state_facts
  have "pc (threads (step two_failing 1 failing_state) 1) = Dec_ref"
    by (simp add: failing_state_def two_failing_def eval_unfold)
  then show ?thesis
    using assist_never_raises[OF wf_two_failing failing_state_reachable lt f(4)]
      wf_two_failing failing_state_reachable lt f
    by simp
qed

text \<open>
  C9.  For a runner address \<open>p\<close> whose low seven bits are zero and an admission count
  \<open>c\<close> of at most 127, \<open>maskoff_pointer (p + c)\<close> is \<open>p\<close>; the two sentinels decode
  to the null pointer; and a call that leaves the registration loop of lines 167-171
  with \<open>expected\<close> equal to a sentinel goes straight back to the loop head: only its
  control point changes, no runner is dereferenced, no reference count or flag word is
  touched, and \<^verbatim>\<open>assist\<close> is not entered.
\<close>

theorem maskoff_pointer_decodes:
  "(p AND (max_nfs_size - 1) = 0 \<and> c \<le> max_nfs_size - 1 \<longrightarrow> maskoff_pointer (p + c) = p) \<and>
   maskoff_pointer state_uninitialized = 0 \<and> maskoff_pointer state_done = 0 \<and>
   (\<not> ub (threads s t) \<and> pc (threads s t) = Reg_cas \<and>
      (expected (threads s t) = state_uninitialized \<or> expected (threads s t) = state_done) \<longrightarrow>
      step e t s = goto t Loop s)"
proof (intro conjI impI)
  assume "p AND (max_nfs_size - 1) = 0 \<and> c \<le> max_nfs_size - 1"
  then have "p AND mask 7 = 0" "c \<le> 127" by (simp_all add: mask7 mask7_numeral)
  then show "maskoff_pointer (p + c) = p" by (rule maskoff_aligned_add)
next
  show "maskoff_pointer state_uninitialized = 0" "maskoff_pointer state_done = 0"
    by (simp_all add: state_uninitialized_def state_done_def maskoff_sentinels)
next
  assume a: "\<not> ub (threads s t) \<and> pc (threads s t) = Reg_cas \<and>
      (expected (threads s t) = state_uninitialized \<or> expected (threads s t) = state_done)"
  then have "maskoff_pointer (expected (threads s t)) = 0" "\<not> state_done < expected (threads s t)"
    by (auto simp: state_uninitialized_def state_done_def maskoff_sentinels)
  then show "step e t s = goto t Loop s"
    using a by (simp add: step_def decode_def)
qed

theorem maskoff_pointer_decodes_witness:
  "(384::uintptr) AND (max_nfs_size - 1) = 0 \<and> (5::uintptr) \<le> max_nfs_size - 1 \<and>
   maskoff_pointer (384 + 5) = 384 \<and>
   pc (threads (step two_calls 0 (upd_thread 0 (\<lambda>th. th\<lparr>pc := Reg_cas, expected := state_done\<rparr>) init_config)) 0) = Loop"
proof -
  let ?s = "upd_thread 0 (\<lambda>th. th\<lparr>pc := Reg_cas, expected := state_done\<rparr>) init_config"
  have a: "(384::uintptr) AND (max_nfs_size - 1) = 0" "(5::uintptr) \<le> max_nfs_size - 1"
    by (simp_all add: max_nfs_size_def bit_count_def)
  have b: "\<not> ub (threads ?s 0) \<and> pc (threads ?s 0) = Reg_cas \<and>
      (expected (threads ?s 0) = state_uninitialized \<or> expected (threads ?s 0) = state_done)"
    by (simp add: upd_thread_def init_config_def init_thread_def)
  show ?thesis
    using maskoff_pointer_decodes[of 384 5 ?s 0 two_calls] a b
    by (simp add: goto_def upd_thread_def)
qed

text \<open>
  C10.  At the compare-and-swap of line 171 the flag word is left as it is when it holds
  a sentinel or when \<open>expected\<close> is not above \<open>done\<close>; when the step does change the
  flag word, the old value was above \<open>done\<close>, the new one is the old one plus one, and
  it is neither 1 nor 2.
\<close>

theorem registration_guard:
  assumes "\<not> ub (threads s t)" and "pc (threads s t) = Reg_cas"
  shows "(my_state s = state_uninitialized \<or> my_state s = state_done \<or>
            \<not> state_done < expected (threads s t) \<longrightarrow> my_state (step e t s) = my_state s) \<and>
         (my_state (step e t s) \<noteq> my_state s \<longrightarrow>
            state_done < my_state s \<and> my_state s = expected (threads s t) \<and>
            my_state (step e t s) = my_state s + 1 \<and>
            my_state (step e t s) \<noteq> 1 \<and> my_state (step e t s) \<noteq> 2)"
proof -
  have "flag_move_of e t s = Register \<or> flag_move_of e t s = Stutter"
    using assms by (simp add: flag_move_of_def Let_def)
  moreover have "flag_move_of e t s = Register \<longleftrightarrow>
      state_done < expected (threads s t) \<and> my_state s = expected (threads s t)"
    using assms by (simp add: flag_move_of_def Let_def)
  moreover have "1 < my_state s \<Longrightarrow> my_state s + 1 \<noteq> 1 \<and> my_state s + 1 \<noteq> 2"
    by unat_arith
  ultimately show ?thesis
    by (auto simp: step_my_state state_done_def state_uninitialized_def)
qed


theorem registration_guard_witness:
  "\<not> ub (threads (upd_thread 0 (\<lambda>th. th\<lparr>pc := Reg_cas, expected := 0\<rparr>) init_config) 0) \<and>
   pc (threads (upd_thread 0 (\<lambda>th. th\<lparr>pc := Reg_cas, expected := 0\<rparr>) init_config) 0) = Reg_cas \<and>
   my_state (upd_thread 0 (\<lambda>th. th\<lparr>pc := Reg_cas, expected := 0\<rparr>) init_config) = state_uninitialized \<and>
   my_state (step two_calls 0 (upd_thread 0 (\<lambda>th. th\<lparr>pc := Reg_cas, expected := 0\<rparr>) init_config)) =
     state_uninitialized"
proof -
  let ?s = "upd_thread 0 (\<lambda>th. th\<lparr>pc := Reg_cas, expected := 0\<rparr>) init_config"
  have a: "\<not> ub (threads ?s 0)" "pc (threads ?s 0) = Reg_cas" "my_state ?s = state_uninitialized"
    by (simp_all add: upd_thread_def init_config_def init_thread_def)
  show ?thesis using registration_guard[OF a(1,2), of two_calls] a by simp
qed

end
